theory Spec2Isabelle
  imports Complex_Main
begin

unbundle bit_operations_syntax

section \<open>Machine integers of the AssemblyScript source\<close>

text \<open>
  The source is AssemblyScript: \<open>u64\<close> values are modelled as natural numbers below
  \<open>2 ^ 64\<close> with the wrap-around of every \<open>u64\<close> operation written out, \<open>i32\<close> values as
  integers from \<open>- 2 ^ 31\<close> to \<open>2 ^ 31 - 1\<close>. Shifts take their count modulo the width, as
  the WebAssembly instructions do. Sums, differences and products of \<open>i32\<close> values wrap
  (\<open>add32\<close>, \<open>sub32\<close>, \<open>mul32\<close>); the sum is written on \<open>int\<close> where it is a shift count,
  which is taken modulo 64 anyway, and where a loop counter below an \<open>i32\<close> bound is
  incremented. A conversion from a double to an integer type saturates.
\<close>

type_synonym u64 = nat
type_synonym i32 = int

definition U64_MAX_VALUE :: u64 where
  "U64_MAX_VALUE = 2 ^ 64 - 1"

definition to_i32 :: "int \<Rightarrow> i32" where
  "to_i32 x = (x + 2 ^ 31) mod 2 ^ 32 - 2 ^ 31"

definition sat_i32 :: "int \<Rightarrow> i32" where
  "sat_i32 x = max (- (2 ^ 31)) (min x (2 ^ 31 - 1))"

definition add32 :: "i32 \<Rightarrow> i32 \<Rightarrow> i32" where
  "add32 x y = to_i32 (x + y)"

definition sub32 :: "i32 \<Rightarrow> i32 \<Rightarrow> i32" where
  "sub32 x y = to_i32 (x - y)"

definition mul32 :: "i32 \<Rightarrow> i32 \<Rightarrow> i32" where
  "mul32 x y = to_i32 (x * y)"

definition to_u64 :: "int \<Rightarrow> u64" where
  "to_u64 x = nat (x mod 2 ^ 64)"

definition shl32 :: "i32 \<Rightarrow> i32 \<Rightarrow> i32" where
  "shl32 x n = to_i32 (x * 2 ^ nat (n mod 32))"

definition shr32 :: "i32 \<Rightarrow> i32 \<Rightarrow> i32" where
  "shr32 x n = x div 2 ^ nat (n mod 32)"

definition shl64 :: "u64 \<Rightarrow> i32 \<Rightarrow> u64" where
  "shl64 x n = (x * 2 ^ nat (n mod 64)) mod 2 ^ 64"

definition shr64 :: "u64 \<Rightarrow> i32 \<Rightarrow> u64" where
  "shr64 x n = x div 2 ^ nat (n mod 64)"

definition add64 :: "u64 \<Rightarrow> u64 \<Rightarrow> u64" where
  "add64 x y = (x + y) mod 2 ^ 64"

definition sub64 :: "u64 \<Rightarrow> u64 \<Rightarrow> u64" where
  "sub64 x y = (x + (2 ^ 64 - y mod 2 ^ 64)) mod 2 ^ 64"

definition mul64 :: "u64 \<Rightarrow> u64 \<Rightarrow> u64" where
  "mul64 x y = (x * y) mod 2 ^ 64"

definition not64 :: "u64 \<Rightarrow> u64" where
  "not64 x = 2 ^ 64 - 1 - x mod 2 ^ 64"

section \<open>Doubles\<close>

text \<open>
  \<open>floor_log2 n\<close> is the position of the highest set bit of \<open>n\<close>, and \<open>ceil_log2 n\<close> the
  least \<open>k\<close> with \<open>n \<le> 2 ^ k\<close>.
\<close>

fun floor_log2 :: "nat \<Rightarrow> nat" where
  "floor_log2 n = (if n < 2 then 0 else Suc (floor_log2 (n div 2)))"

declare floor_log2.simps [simp del]

definition ceil_log2 :: "nat \<Rightarrow> nat" where
  "ceil_log2 n = (if n \<le> 1 then 0 else Suc (floor_log2 (n - 1)))"

subsection \<open>Conversion of an integer\<close>

text \<open>
  \<open>to_f64 v\<close> is the value of \<open><f64>v\<close> for a \<open>u64\<close> \<open>v\<close>: the conversion rounds to the
  nearest double (53 significant bits), ties to the even significand. The result of the
  conversion is again an integer, so it is kept as a natural number.
\<close>

definition to_f64 :: "u64 \<Rightarrow> nat" where
  "to_f64 v =
     (if v < 2 ^ 53 then v
      else
        let e = floor_log2 v - 52;
            q = v div 2 ^ e;
            r = v mod 2 ^ e;
            half = 2 ^ (e - 1)
        in if r < half \<or> (r = half \<and> even q) then q * 2 ^ e else (q + 1) * 2 ^ e)"

subsection \<open>The logarithm\<close>

text \<open>
  \<open>Math.log2\<close> belongs to the platform. It is modelled as the correctly rounded binary
  logarithm: its result is the double nearest to the logarithm of its argument, and is exact
  on a power of two. For a double \<open>x\<close> with \<open>2 ^ e \<le> x < 2 ^ (e + 1)\<close> the logarithm lies
  between \<open>e\<close> and \<open>e + 1\<close>, and its rounding is \<open>e + 1\<close> or \<open>e\<close> itself when it is within half
  the distance of neighbouring doubles from that integer. Between 32 and 64 doubles are
  \<open>2 ^ - 47\<close> apart, and

    \<^item> \<open>e + 1 - 2 ^ - 48 \<le> log2 x\<close> holds for the 22 doubles just below \<open>2 ^ (e + 1)\<close>, those
      with \<open>(2 ^ (e + 1) - x) * 2 ^ 52 \<le> 22 * 2 ^ e\<close>;
    \<^item> \<open>log2 x \<le> e + 2 ^ - 48\<close> holds for \<open>2 ^ e\<close> and the 11 doubles just above it, those with
      \<open>(x - 2 ^ e) * 2 ^ 52 \<le> 11 * 2 ^ e\<close>

  (both bounds are derived from the real logarithm below, in \<open>The rounding of the
  logarithm\<close>). A double with an integral value is that close to a power of two only from
  \<open>2 ^ 49 - 1\<close> on, where \<open>e + 1\<close> is between 32 and 64; below, the two tests fail for every
  integer but the power of two itself. \<open>log2_rounds_up x\<close> and \<open>log2_rounds_down x\<close> are the
  two tests, on a double \<open>x\<close> with an integral value.
\<close>

definition log2_rounds_up :: "nat \<Rightarrow> bool" where
  "log2_rounds_up x = ((2 ^ Suc (floor_log2 x) - x) * 2 ^ 52 \<le> 22 * 2 ^ floor_log2 x)"

definition log2_rounds_down :: "nat \<Rightarrow> bool" where
  "log2_rounds_down x = ((x - 2 ^ floor_log2 x) * 2 ^ 52 \<le> 11 * 2 ^ floor_log2 x)"

text \<open>
  \<open>floor(Math.log2(<f64>v))\<close> and \<open>ceil(Math.log2(<f64>v))\<close> for a \<open>u64\<close> \<open>v\<close>. On \<open>0\<close> the
  logarithm is minus infinity, the value \<open>None\<close>.
\<close>

definition floor_log2_f64 :: "u64 \<Rightarrow> int option" where
  "floor_log2_f64 v =
     (if v = 0 then None
      else
        let x = to_f64 v
        in Some (int (if log2_rounds_up x then Suc (floor_log2 x) else floor_log2 x)))"

definition ceil_log2_f64 :: "u64 \<Rightarrow> int option" where
  "ceil_log2_f64 v =
     (if v = 0 then None
      else
        let x = to_f64 v
        in Some (int (if log2_rounds_down x then floor_log2 x else Suc (floor_log2 x))))"

text \<open>
  \<open><i32>x\<close> for a double \<open>x\<close> that is an integer or minus infinity.
\<close>

definition f64_to_i32 :: "int option \<Rightarrow> i32" where
  "f64_to_i32 x = (case x of None \<Rightarrow> - (2 ^ 31) | Some l \<Rightarrow> sat_i32 l)"

subsection \<open>Arithmetic\<close>

text \<open>
  A finite double is modelled by the rational number it denotes. \<open>exponent x\<close> is the
  \<open>e\<close> with \<open>2 ^ e \<le> |x| < 2 ^ (e + 1)\<close>, and \<open>spacing x\<close> the distance between neighbouring
  doubles at \<open>x\<close>: \<open>2 ^ (e - 52)\<close> in the normal range, \<open>2 ^ - 1074\<close> below it and at \<open>0\<close>.
  \<open>round_f64 x\<close> is the double nearest to the rational \<open>x\<close>, the one with the even
  significand when two are equally near; a quotient, a product and a difference of doubles
  are the exact result rounded. There is no overflow in the model: it follows the source
  as long as the results stay below \<open>2 ^ 1024\<close> in magnitude.
\<close>

definition pow2 :: "int \<Rightarrow> rat" where
  "pow2 k = (if 0 \<le> k then 2 ^ nat k else 1 / 2 ^ nat (- k))"

definition exponent :: "rat \<Rightarrow> int" where
  "exponent x =
     (let a = \<bar>x\<bar>
      in if 1 \<le> a then int (floor_log2 (nat \<lfloor>a\<rfloor>)) else - int (ceil_log2 (nat \<lceil>1 / a\<rceil>)))"

definition spacing :: "rat \<Rightarrow> rat" where
  "spacing x = (if x = 0 then pow2 (- 1074) else pow2 (max (exponent x) (- 1022) - 52))"

definition round_f64 :: "rat \<Rightarrow> rat" where
  "round_f64 x =
     (let q = spacing x;
          n = x / q;
          r = \<lfloor>n\<rfloor>;
          d = n - of_int r
      in (if d < 1 / 2 \<or> (d = 1 / 2 \<and> even r) then of_int r else of_int (r + 1)) * q)"

definition f64_div :: "rat \<Rightarrow> rat \<Rightarrow> rat" where
  "f64_div x y = round_f64 (x / y)"

definition f64_mul :: "rat \<Rightarrow> rat \<Rightarrow> rat" where
  "f64_mul x y = round_f64 (x * y)"

definition f64_sub :: "rat \<Rightarrow> rat \<Rightarrow> rat" where
  "f64_sub x y = round_f64 (x - y)"

text \<open>
  \<open><u64>x\<close> for a double \<open>x\<close>.
\<close>

definition f64_to_u64 :: "rat \<Rightarrow> u64" where
  "f64_to_u64 x = (if x \<le> 0 then 0 else if 2 ^ 64 \<le> x then U64_MAX_VALUE else nat \<lfloor>x\<rfloor>)"

text \<open>
  \<open><u64>Math.pow(10, n)\<close>: the powers of ten up to \<open>10 ^ 19\<close> are doubles below \<open>2 ^ 64\<close>, the
  others are beyond it.
\<close>

definition pow10_u64 :: "nat \<Rightarrow> u64" where
  "pow10_u64 n = (if n \<le> 19 then 10 ^ n else U64_MAX_VALUE)"

section \<open>The histogram\<close>

text \<open>
  What the source throws: \<open>InvalidArgument\<close> for the argument checks of the constructor, of
  \<open>determineArrayLengthNeeded\<close> and of \<open>countsArrayIndex\<close>; \<open>OutOfRange\<close> for a value or another
  histogram outside the covered range; \<open>AssertionFailed\<close> for a failed \<open>assert\<close>;
  \<open>IndexOutOfRange\<close> for an access outside a typed array and for a typed array of negative
  length; \<open>CounterOverflow\<close> for the \<open>would overflow short integer count\<close> throws.
\<close>

datatype error =
    InvalidArgument
  | OutOfRange
  | AssertionFailed
  | IndexOutOfRange
  | CounterOverflow

type_synonym 'a res = "error + 'a"

text \<open>
  The fields of \<open>Histogram<T, U>\<close> and of its base class. \<open>counterBits\<close> is the width of the
  counter type \<open>U\<close> (8, 16, 32 or 64 for \<open>Histogram8\<close> to \<open>Histogram64\<close>); \<open>counts\<close> is the typed
  array \<open>T\<close>, every element below \<open>2 ^ counterBits\<close>. The base class
  \<open>AbstractHistogramBase\<close> is not among the sources: the fields the methods read from it
  (\<open>autoResize\<close>, the three configuration values, \<open>bucketCount\<close>, \<open>subBucketCount\<close>,
  \<open>countsArrayLength\<close> and the two time stamps) are taken with the types their uses show.
\<close>

record Histogram =
  counterBits :: nat
  autoResize :: bool
  lowestDiscernibleValue :: u64
  highestTrackableValue :: u64
  numberOfSignificantValueDigits :: nat
  bucketCount :: i32
  subBucketCount :: i32
  countsArrayLength :: i32
  startTimeStampMsec :: u64
  endTimeStampMsec :: u64
  leadingZeroCountBase :: i32
  subBucketHalfCountMagnitude :: i32
  unitMagnitude :: i32
  subBucketHalfCount :: i32
  subBucketMask :: u64
  unitMagnitudeMask :: u64
  maxValue :: u64
  minNonZeroValue :: u64
  counts :: "nat list"
  totalCount :: u64

text \<open>
  A method that mutates the histogram either returns (\<open>Done\<close>, with the state it leaves) or
  throws (\<open>Thrown\<close>, with the state at the throw). A method that may run forever yields an
  \<open>option\<close>: \<open>None\<close> when it does not return.
\<close>

datatype step = Done Histogram | Thrown error Histogram

definition then_do :: "step option \<Rightarrow> (Histogram \<Rightarrow> step option) \<Rightarrow> step option" where
  "then_do m f =
     (case m of
        None \<Rightarrow> None
      | Some (Thrown e h) \<Rightarrow> Some (Thrown e h)
      | Some (Done h) \<Rightarrow> f h)"

subsection \<open>Sizing\<close>

text \<open>
  The \<open>while\<close> loop of \<open>getBucketsNeededToCoverValue\<close>. \<open>bucketsNeeded\<close> starts at \<open>1\<close>, and
  a loop that ends has doubled \<open>smallestUntrackableValue\<close> at most 63 times: the counter
  stays far below the \<open>i32\<close> bound.
\<close>

partial_function (option) bucketsLoop :: "u64 \<Rightarrow> u64 \<Rightarrow> i32 \<Rightarrow> i32 option" where
  "bucketsLoop smallestUntrackableValue v bucketsNeeded =
     (if smallestUntrackableValue \<le> v then
        (if smallestUntrackableValue > shr64 U64_MAX_VALUE 1 then Some (bucketsNeeded + 1)
         else bucketsLoop (shl64 smallestUntrackableValue 1) v (bucketsNeeded + 1))
      else Some bucketsNeeded)"

declare bucketsLoop.simps [code]

definition getBucketsNeededToCoverValue :: "Histogram \<Rightarrow> u64 \<Rightarrow> i32 option" where
  "getBucketsNeededToCoverValue h v =
     bucketsLoop (shl64 (to_u64 (subBucketCount h)) (unitMagnitude h)) v 1"

definition getLengthForNumberOfBuckets :: "Histogram \<Rightarrow> i32 \<Rightarrow> i32" where
  "getLengthForNumberOfBuckets h numberOfBuckets =
     mul32 (add32 numberOfBuckets 1) (shr32 (subBucketCount h) 1)"

definition determineArrayLengthNeeded :: "Histogram \<Rightarrow> u64 \<Rightarrow> i32 res option" where
  "determineArrayLengthNeeded h v =
     (if v < mul64 2 (lowestDiscernibleValue h) then Some (Inl InvalidArgument)
      else map_option (\<lambda>n. Inr (getLengthForNumberOfBuckets h n))
             (getBucketsNeededToCoverValue h v))"

definition establishSize :: "u64 \<Rightarrow> Histogram \<Rightarrow> step option" where
  "establishSize newHighestTrackableValue h =
     (case determineArrayLengthNeeded h newHighestTrackableValue of
        None \<Rightarrow> None
      | Some (Inl e) \<Rightarrow> Some (Thrown e h)
      | Some (Inr len) \<Rightarrow>
          (let h1 = h\<lparr>countsArrayLength := len\<rparr> in
           case getBucketsNeededToCoverValue h1 newHighestTrackableValue of
             None \<Rightarrow> None
           | Some n \<Rightarrow>
               Some (Done (h1\<lparr>bucketCount := n,
                                highestTrackableValue := newHighestTrackableValue\<rparr>))))"

subsection \<open>Construction\<close>

text \<open>
  \<open>init\<close>, run by the constructor on an object whose fields have their declared initial
  values. The iterators it creates hold no state of the histogram and are left out.
  \<open>unitMagnitudeMask\<close> is a \<open>u64\<close>, and so are the \<open>1\<close> and the shift in the expression
  assigned to it. \<open>instantiate\<close> creates the zero-filled counts array, and throws when the
  length is negative.
\<close>

definition init :: "nat \<Rightarrow> u64 \<Rightarrow> u64 \<Rightarrow> nat \<Rightarrow> step option" where
  "init bits lowest highest digits =
     (let largestValueWithSingleUnitResolution = mul64 2 (pow10_u64 digits);
          um = f64_to_i32 (floor_log2_f64 lowest);
          mask = sub64 (shl64 1 um) 1;
          subBucketCountMagnitude = f64_to_i32 (ceil_log2_f64 largestValueWithSingleUnitResolution);
          sbc = shl32 1 subBucketCountMagnitude;
          h = \<lparr> counterBits = bits,
                autoResize = False,
                lowestDiscernibleValue = lowest,
                highestTrackableValue = highest,
                numberOfSignificantValueDigits = digits,
                bucketCount = 0,
                subBucketCount = sbc,
                countsArrayLength = 0,
                startTimeStampMsec = 0,
                endTimeStampMsec = 0,
                leadingZeroCountBase = 0,
                subBucketHalfCountMagnitude = sub32 subBucketCountMagnitude 1,
                unitMagnitude = um,
                subBucketHalfCount = shr32 sbc 1,
                subBucketMask = shl64 (sub64 (to_u64 sbc) 1) um,
                unitMagnitudeMask = mask,
                maxValue = 0,
                minNonZeroValue = U64_MAX_VALUE,
                counts = [],
                totalCount = 0 \<rparr>
      in then_do (establishSize highest h)
           (\<lambda>h1.
              if countsArrayLength h1 < 0 then Some (Thrown IndexOutOfRange h1)
              else Some (Done (h1\<lparr>counts := replicate (nat (countsArrayLength h1)) 0,
                                 leadingZeroCountBase :=
                                   sub32 (sub32 (sub32 53 (unitMagnitude h1))
                                     (subBucketHalfCountMagnitude h1)) 1\<rparr>))))"

text \<open>
  The constructor: the argument checks, then \<open>init\<close>. \<open>digits\<close> is a \<open>u8\<close>, so only the upper
  bound can fail.
\<close>

definition new_Histogram :: "nat \<Rightarrow> u64 \<Rightarrow> u64 \<Rightarrow> nat \<Rightarrow> Histogram res option" where
  "new_Histogram bits lowest highest digits =
     (if lowest < 1 then Some (Inl InvalidArgument)
      else if highest < mul64 2 lowest then Some (Inl InvalidArgument)
      else if digits > 5 then Some (Inl InvalidArgument)
      else (case init bits lowest highest digits of
              None \<Rightarrow> None
            | Some (Thrown e h) \<Rightarrow> Some (Inl e)
            | Some (Done h) \<Rightarrow> Some (Inr h)))"

subsection \<open>Values and indices\<close>

text \<open>
  \<open>getBucketIndex\<close> subtracts in doubles, where the difference of these integers is exact;
  the maximum of minus infinity and \<open>0\<close> is \<open>0\<close>.
\<close>

definition getBucketIndex :: "Histogram \<Rightarrow> u64 \<Rightarrow> i32" where
  "getBucketIndex h v =
     (case floor_log2_f64 v of
        None \<Rightarrow> 0
      | Some l \<Rightarrow> sat_i32 (max (l - subBucketHalfCountMagnitude h - unitMagnitude h) 0))"

definition getSubBucketIndex :: "Histogram \<Rightarrow> u64 \<Rightarrow> i32 \<Rightarrow> i32" where
  "getSubBucketIndex h v bucketIndex = to_i32 (int (shr64 v (bucketIndex + unitMagnitude h)))"

definition computeCountsArrayIndex :: "Histogram \<Rightarrow> i32 \<Rightarrow> i32 \<Rightarrow> i32 res" where
  "computeCountsArrayIndex h bucketIndex subBucketIndex =
     (if \<not> subBucketIndex < subBucketCount h then Inl AssertionFailed
      else if \<not> (bucketIndex = 0 \<or> subBucketIndex \<ge> subBucketHalfCount h) then Inl AssertionFailed
      else
        let bucketBaseIndex =
              mul32 (add32 bucketIndex 1) (shl32 1 (subBucketHalfCountMagnitude h));
            offsetInBucket = sub32 subBucketIndex (subBucketHalfCount h)
        in Inr (add32 bucketBaseIndex offsetInBucket))"

definition countsArrayIndex :: "Histogram \<Rightarrow> u64 \<Rightarrow> i32 res" where
  "countsArrayIndex h v =
     (if v < 0 then Inl InvalidArgument
      else
        let bucketIndex = getBucketIndex h v;
            subBucketIndex = getSubBucketIndex h v bucketIndex
        in computeCountsArrayIndex h bucketIndex subBucketIndex)"

definition valueFromIndexes :: "Histogram \<Rightarrow> i32 \<Rightarrow> i32 \<Rightarrow> u64" where
  "valueFromIndexes h bucketIndex subBucketIndex =
     shl64 (to_u64 subBucketIndex) (bucketIndex + unitMagnitude h)"

definition valueFromIndex :: "Histogram \<Rightarrow> i32 \<Rightarrow> u64" where
  "valueFromIndex h index =
     (let bucketIndex = sub32 (shr32 index (subBucketHalfCountMagnitude h)) 1;
          subBucketIndex =
            add32 (index AND sub32 (subBucketHalfCount h) 1) (subBucketHalfCount h)
      in if bucketIndex < 0
         then valueFromIndexes h 0 (sub32 subBucketIndex (subBucketHalfCount h))
         else valueFromIndexes h bucketIndex subBucketIndex)"

definition sizeOfEquivalentValueRange :: "Histogram \<Rightarrow> u64 \<Rightarrow> u64" where
  "sizeOfEquivalentValueRange h v = shl64 1 (unitMagnitude h + getBucketIndex h v)"

definition lowestEquivalentValue :: "Histogram \<Rightarrow> u64 \<Rightarrow> u64" where
  "lowestEquivalentValue h v =
     (let bucketIndex = getBucketIndex h v;
          subBucketIndex = getSubBucketIndex h v bucketIndex
      in valueFromIndexes h bucketIndex subBucketIndex)"

definition nextNonEquivalentValue :: "Histogram \<Rightarrow> u64 \<Rightarrow> u64" where
  "nextNonEquivalentValue h v = add64 (lowestEquivalentValue h v) (sizeOfEquivalentValueRange h v)"

definition highestEquivalentValue :: "Histogram \<Rightarrow> u64 \<Rightarrow> u64" where
  "highestEquivalentValue h v = sub64 (nextNonEquivalentValue h v) 1"

definition medianEquivalentValue :: "Histogram \<Rightarrow> u64 \<Rightarrow> u64" where
  "medianEquivalentValue h v =
     add64 (lowestEquivalentValue h v) (shr64 (sizeOfEquivalentValueRange h v) 1)"

subsection \<open>Counters and aggregates\<close>

definition updatedMaxValue :: "u64 \<Rightarrow> Histogram \<Rightarrow> Histogram" where
  "updatedMaxValue v h = h\<lparr>maxValue := add64 v (unitMagnitudeMask h)\<rparr>"

definition updateMinNonZeroValue :: "u64 \<Rightarrow> Histogram \<Rightarrow> Histogram" where
  "updateMinNonZeroValue v h =
     (if v \<le> unitMagnitudeMask h then h
      else h\<lparr>minNonZeroValue := v AND not64 (unitMagnitudeMask h)\<rparr>)"

definition updateMinAndMax :: "u64 \<Rightarrow> Histogram \<Rightarrow> Histogram" where
  "updateMinAndMax v h =
     (let h1 = (if v > maxValue h then updatedMaxValue v h else h)
      in if v < minNonZeroValue h1 \<and> v \<noteq> 0 then updateMinNonZeroValue v h1 else h1)"

text \<open>
  An index is inside the typed array when it is at least \<open>0\<close> and below its length. A
  checked access outside the array throws; \<open>incrementCountAtIndex\<close> reads and writes
  \<open>unchecked\<close>, which has no meaning outside the array, and the model stops there in the same
  way.
\<close>

definition in_array :: "Histogram \<Rightarrow> i32 \<Rightarrow> bool" where
  "in_array h index = (0 \<le> index \<and> index < int (length (counts h)))"

definition getCountAtIndex :: "Histogram \<Rightarrow> i32 \<Rightarrow> u64 res" where
  "getCountAtIndex h index =
     (if in_array h index then Inr (counts h ! nat index) else Inl IndexOutOfRange)"

text \<open>
  \<open>currentCount + 1\<close> has the counter type \<open>U\<close>, \<open>currentCount + value\<close> the type \<open>u64\<close>;
  both are unsigned, and so is the \<open>newCount\<close> that is compared with \<open>0\<close>. The store
  converts to \<open>U\<close>.
\<close>

definition incrementCountAtIndex :: "i32 \<Rightarrow> Histogram \<Rightarrow> step" where
  "incrementCountAtIndex index h =
     (if \<not> in_array h index then Thrown IndexOutOfRange h
      else
        let currentCount = counts h ! nat index;
            newCount = (currentCount + 1) mod 2 ^ counterBits h
        in if newCount < 0 then Thrown CounterOverflow h
           else Done (h\<lparr>counts := (counts h)[nat index := newCount]\<rparr>))"

definition addToCountAtIndex :: "i32 \<Rightarrow> u64 \<Rightarrow> Histogram \<Rightarrow> step" where
  "addToCountAtIndex index v h =
     (if \<not> in_array h index then Thrown IndexOutOfRange h
      else
        let currentCount = counts h ! nat index;
            newCount = add64 currentCount v
        in if newCount < 0 then Thrown CounterOverflow h
           else Done (h\<lparr>counts := (counts h)[nat index := newCount mod 2 ^ counterBits h]\<rparr>))"

definition incrementTotalCount :: "Histogram \<Rightarrow> Histogram" where
  "incrementTotalCount h = h\<lparr>totalCount := add64 (totalCount h) 1\<rparr>"

subsection \<open>Recording\<close>

text \<open>
  \<open>resize\<close>: the new array is zero-filled (there is none of negative length) and \<open>set\<close>
  copies the old counters to the same indices; \<open>set\<close> throws when its source is longer than
  the target.
\<close>

definition resize :: "u64 \<Rightarrow> Histogram \<Rightarrow> step option" where
  "resize newHighestTrackableValue h =
     then_do (establishSize newHighestTrackableValue h)
       (\<lambda>h1. let n = nat (countsArrayLength h1)
             in if countsArrayLength h1 < 0 \<or> n < length (counts h1)
                then Some (Thrown IndexOutOfRange h1)
                else Some (Done (h1\<lparr>counts := counts h1 @ replicate (n - length (counts h1)) 0\<rparr>)))"

definition handleRecordException :: "u64 \<Rightarrow> u64 \<Rightarrow> Histogram \<Rightarrow> step option" where
  "handleRecordException count v h =
     (if \<not> autoResize h then Some (Thrown OutOfRange h)
      else
        then_do (resize v h)
          (\<lambda>h1. case countsArrayIndex h1 v of
                  Inl e \<Rightarrow> Some (Thrown e h1)
                | Inr countsIndex \<Rightarrow>
                    then_do (Some (addToCountAtIndex countsIndex count h1))
                      (\<lambda>h2. Some (Done (h2\<lparr>highestTrackableValue :=
                               highestEquivalentValue h2
                                 (valueFromIndex h2 (sub32 (countsArrayLength h2) 1))\<rparr>)))))"

definition recordSingleValue :: "u64 \<Rightarrow> Histogram \<Rightarrow> step option" where
  "recordSingleValue v h =
     (case countsArrayIndex h v of
        Inl e \<Rightarrow> Some (Thrown e h)
      | Inr countsIndex \<Rightarrow>
          then_do
            (if countsIndex \<ge> countsArrayLength h then handleRecordException 1 v h
             else Some (incrementCountAtIndex countsIndex h))
            (\<lambda>h1. Some (Done (incrementTotalCount (updateMinAndMax v h1)))))"

definition recordValue :: "u64 \<Rightarrow> Histogram \<Rightarrow> step option" where
  "recordValue v h = recordSingleValue v h"

definition recordCountAtValue :: "u64 \<Rightarrow> u64 \<Rightarrow> Histogram \<Rightarrow> step option" where
  "recordCountAtValue count v h =
     (case countsArrayIndex h v of
        Inl e \<Rightarrow> Some (Thrown e h)
      | Inr countsIndex \<Rightarrow>
          then_do
            (if countsIndex \<ge> countsArrayLength h then handleRecordException count v h
             else Some (addToCountAtIndex countsIndex count h))
            (\<lambda>h1. let h2 = updateMinAndMax v h1
                  in Some (Done (h2\<lparr>totalCount := add64 (totalCount h2) count\<rparr>))))"

subsection \<open>Correction for coordinated omission\<close>

text \<open>
  The two \<open>for\<close> loops over \<open>missingValue\<close>. The variable is a \<open>u64\<close>: its start
  \<open>value - expectedIntervalBetweenValueSamples\<close> and each decrement wrap.
\<close>

partial_function (option) singleValueLoop :: "u64 \<Rightarrow> u64 \<Rightarrow> Histogram \<Rightarrow> step option" where
  "singleValueLoop interval missingValue h =
     (if missingValue \<ge> interval then
        (case recordSingleValue missingValue h of
           None \<Rightarrow> None
         | Some (Thrown e h1) \<Rightarrow> Some (Thrown e h1)
         | Some (Done h1) \<Rightarrow> singleValueLoop interval (sub64 missingValue interval) h1)
      else Some (Done h))"

declare singleValueLoop.simps [code]

definition recordSingleValueWithExpectedInterval :: "u64 \<Rightarrow> u64 \<Rightarrow> Histogram \<Rightarrow> step option" where
  "recordSingleValueWithExpectedInterval v interval h =
     then_do (recordSingleValue v h)
       (\<lambda>h1. if interval \<le> 0 then Some (Done h1)
             else singleValueLoop interval (sub64 v interval) h1)"

partial_function (option) countLoop :: "u64 \<Rightarrow> u64 \<Rightarrow> u64 \<Rightarrow> Histogram \<Rightarrow> step option" where
  "countLoop count interval missingValue h =
     (if missingValue \<ge> interval then
        (case recordCountAtValue count missingValue h of
           None \<Rightarrow> None
         | Some (Thrown e h1) \<Rightarrow> Some (Thrown e h1)
         | Some (Done h1) \<Rightarrow> countLoop count interval (sub64 missingValue interval) h1)
      else Some (Done h))"

declare countLoop.simps [code]

definition recordValueWithCountAndExpectedInterval ::
    "u64 \<Rightarrow> u64 \<Rightarrow> u64 \<Rightarrow> Histogram \<Rightarrow> step option" where
  "recordValueWithCountAndExpectedInterval v count interval h =
     then_do (recordCountAtValue count v h)
       (\<lambda>h1. if v \<le> interval then Some (Done h1)
             else countLoop count interval (sub64 v interval) h1)"

subsection \<open>Percentiles\<close>

text \<open>
  Modelled from the spec: \<open>ulp\<close> is imported from a module that is not among the sources.
  The spec's glossary has it as the unit in the last place of \<open>x\<close> in double precision:
  \<open>2 ^ (e - 52)\<close> for \<open>2 ^ e \<le> |x| < 2 ^ (e + 1)\<close>, and the smallest positive double below the
  normal range.
\<close>

definition ulp :: "rat \<Rightarrow> rat" where
  "ulp x = spacing x"

text \<open>
  The percentile is a double. The quotient by \<open>100\<close>, the product with \<open><f64>totalCount\<close>
  and the difference with the \<open>ulp\<close> are each rounded; \<open>min\<close>, \<open>ceil\<close> and \<open>max\<close> are exact.
\<close>

definition countAtPercentile :: "Histogram \<Rightarrow> rat \<Rightarrow> u64" where
  "countAtPercentile h percentile =
     (let requestedPercentile = min percentile 100;
          fpCountAtPercentile =
            f64_mul (f64_div requestedPercentile 100) (of_nat (to_f64 (totalCount h)))
      in f64_to_u64
           (max (of_int \<lceil>f64_sub fpCountAtPercentile (ulp fpCountAtPercentile)\<rceil>) 1))"

function percentileScan :: "Histogram \<Rightarrow> rat \<Rightarrow> u64 \<Rightarrow> i32 \<Rightarrow> u64 \<Rightarrow> u64 res" where
  "percentileScan h percentile target i totalToCurrentIndex =
     (if i < countsArrayLength h then
        (case getCountAtIndex h i of
           Inl e \<Rightarrow> Inl e
         | Inr c \<Rightarrow>
             let total = add64 totalToCurrentIndex c
             in if total \<ge> target then
                  (let valueAtIndex = valueFromIndex h i
                   in Inr (if percentile = 0 then lowestEquivalentValue h valueAtIndex
                           else highestEquivalentValue h valueAtIndex))
                else percentileScan h percentile target (i + 1) total)
      else Inr 0)"
  by pat_completeness auto
termination
  by (relation "measure (\<lambda>(h, p, t, i, s). nat (countsArrayLength h - i))") auto

declare percentileScan.simps [simp del]

definition getValueAtPercentile :: "Histogram \<Rightarrow> rat \<Rightarrow> u64 res" where
  "getValueAtPercentile h percentile =
     percentileScan h percentile (countAtPercentile h percentile) 0 0"

subsection \<open>Adding another histogram, and reset\<close>

function addCountsLoop :: "Histogram \<Rightarrow> i32 \<Rightarrow> u64 \<Rightarrow> Histogram \<Rightarrow> (error + u64) \<times> Histogram" where
  "addCountsLoop other i observedOtherTotalCount h =
     (if i < countsArrayLength other then
        (case getCountAtIndex other i of
           Inl e \<Rightarrow> (Inl e, h)
         | Inr otherCount \<Rightarrow>
             if otherCount > 0 then
               (case addToCountAtIndex i otherCount h of
                  Thrown e h1 \<Rightarrow> (Inl e, h1)
                | Done h1 \<Rightarrow>
                    addCountsLoop other (i + 1) (add64 observedOtherTotalCount otherCount) h1)
             else addCountsLoop other (i + 1) observedOtherTotalCount h)
      else (Inr observedOtherTotalCount, h))"
  by pat_completeness auto
termination
  by (relation "measure (\<lambda>(other, i, t, h). nat (countsArrayLength other - i))") auto

declare addCountsLoop.simps [simp del]

function addValuesLoop :: "Histogram \<Rightarrow> i32 \<Rightarrow> i32 \<Rightarrow> Histogram \<Rightarrow> step option" where
  "addValuesLoop other otherMaxIndex i h =
     (if i < otherMaxIndex then
        (case getCountAtIndex other i of
           Inl e \<Rightarrow> Some (Thrown e h)
         | Inr otherCount \<Rightarrow>
             if otherCount > 0 then
               (case recordCountAtValue otherCount (valueFromIndex other i) h of
                  None \<Rightarrow> None
                | Some (Thrown e h1) \<Rightarrow> Some (Thrown e h1)
                | Some (Done h1) \<Rightarrow> addValuesLoop other otherMaxIndex (i + 1) h1)
             else addValuesLoop other otherMaxIndex (i + 1) h)
      else Some (Done h))"
  by pat_completeness auto
termination
  by (relation "measure (\<lambda>(other, m, i, h). nat (m - i))") auto

declare addValuesLoop.simps [simp del]

definition add :: "Histogram \<Rightarrow> Histogram \<Rightarrow> step option" where
  "add otherHistogram h =
     (let highestRecordableValue =
            highestEquivalentValue h (valueFromIndex h (sub32 (countsArrayLength h) 1))
      in
      then_do
        (if highestRecordableValue < maxValue otherHistogram then
           (if \<not> autoResize h then Some (Thrown OutOfRange h)
            else resize (maxValue otherHistogram) h)
         else Some (Done h))
        (\<lambda>h1.
          then_do
            (if bucketCount h1 = bucketCount otherHistogram
                \<and> subBucketCount h1 = subBucketCount otherHistogram
                \<and> unitMagnitude h1 = unitMagnitude otherHistogram
             then
               (case addCountsLoop otherHistogram 0 0 h1 of
                  (Inl e, h2) \<Rightarrow> Some (Thrown e h2)
                | (Inr observedOtherTotalCount, h2) \<Rightarrow>
                    let h3 = h2\<lparr>totalCount := add64 (totalCount h2) observedOtherTotalCount\<rparr>;
                        h4 = updatedMaxValue (max (maxValue h3) (maxValue otherHistogram)) h3
                    in Some (Done (updateMinNonZeroValue
                         (min (minNonZeroValue h4) (minNonZeroValue otherHistogram)) h4)))
             else
               (case countsArrayIndex otherHistogram (maxValue otherHistogram) of
                  Inl e \<Rightarrow> Some (Thrown e h1)
                | Inr otherMaxIndex \<Rightarrow>
                    (case getCountAtIndex otherHistogram otherMaxIndex of
                       Inl e \<Rightarrow> Some (Thrown e h1)
                     | Inr otherCount \<Rightarrow>
                         then_do (recordCountAtValue otherCount (maxValue otherHistogram) h1)
                           (addValuesLoop otherHistogram otherMaxIndex 0))))
            (\<lambda>h5. Some (Done (h5\<lparr>
                startTimeStampMsec :=
                  min (startTimeStampMsec h5) (startTimeStampMsec otherHistogram),
                endTimeStampMsec :=
                  max (endTimeStampMsec h5) (endTimeStampMsec otherHistogram)\<rparr>)))))"

definition clearCounts :: "Histogram \<Rightarrow> Histogram" where
  "clearCounts h = h\<lparr>counts := map (\<lambda>c. 0) (counts h)\<rparr>"

definition reset :: "Histogram \<Rightarrow> Histogram" where
  "reset h =
     (clearCounts h)\<lparr>totalCount := 0,
                     startTimeStampMsec := 0,
                     endTimeStampMsec := 0,
                     maxValue := 0,
                     minNonZeroValue := U64_MAX_VALUE\<rparr>"

section \<open>Facts the constructor establishes\<close>

text \<open>
  The layout a successfully constructed histogram has: the sub-bucket counts are powers of
  two, the array holds \<open>bucketCount + 1\<close> half-buckets, and the topmost bucket ends at or
  below \<open>2 ^ 64\<close>.
\<close>

definition layout_invariant :: "Histogram \<Rightarrow> bool" where
  "layout_invariant h =
     (\<exists>m u. subBucketHalfCountMagnitude h = int m \<and> unitMagnitude h = int u \<and> m \<le> 17
         \<and> subBucketHalfCount h = 2 ^ m \<and> subBucketCount h = 2 ^ Suc m
         \<and> 1 \<le> bucketCount h
         \<and> countsArrayLength h = (bucketCount h + 1) * 2 ^ m
         \<and> int m + int u + bucketCount h \<le> 64)"

section \<open>Example histograms\<close>

text \<open>
  The states the concrete theorems below are about. Each is shown further down to be what
  the constructor, or the named call on an earlier example, yields.
\<close>

text \<open>\<open>histogram64\<close> is the state that \<open>new Histogram64(1, 1000, 0)\<close> constructs.\<close>

definition histogram64 :: Histogram where
  "histogram64 =
     \<lparr> counterBits = 64, autoResize = False, lowestDiscernibleValue = 1,
       highestTrackableValue = 1000, numberOfSignificantValueDigits = 0, bucketCount = 10,
       subBucketCount = 2, countsArrayLength = 11, startTimeStampMsec = 0,
       endTimeStampMsec = 0, leadingZeroCountBase = 52, subBucketHalfCountMagnitude = 0,
       unitMagnitude = 0, subBucketHalfCount = 1, subBucketMask = 1, unitMagnitudeMask = 0,
       maxValue = 0, minNonZeroValue = 18446744073709551615,
       counts = [0, 0, 0, 0, 0, 0, 0, 0, 0, 0, 0], totalCount = 0 \<rparr>"

text \<open>\<open>histogram8\<close> is the state that \<open>new Histogram8(1, 2, 0)\<close> constructs.\<close>

definition histogram8 :: Histogram where
  "histogram8 =
     \<lparr> counterBits = 8, autoResize = False, lowestDiscernibleValue = 1,
       highestTrackableValue = 2, numberOfSignificantValueDigits = 0, bucketCount = 2,
       subBucketCount = 2, countsArrayLength = 3, startTimeStampMsec = 0,
       endTimeStampMsec = 0, leadingZeroCountBase = 52, subBucketHalfCountMagnitude = 0,
       unitMagnitude = 0, subBucketHalfCount = 1, subBucketMask = 1, unitMagnitudeMask = 0,
       maxValue = 0, minNonZeroValue = 18446744073709551615, counts = [0, 0, 0],
       totalCount = 0 \<rparr>"

text \<open>\<open>histogram_unit4\<close> is the state that \<open>new Histogram64(4, 8, 0)\<close> constructs.\<close>

definition histogram_unit4 :: Histogram where
  "histogram_unit4 =
     \<lparr> counterBits = 64, autoResize = False, lowestDiscernibleValue = 4,
       highestTrackableValue = 8, numberOfSignificantValueDigits = 0, bucketCount = 2,
       subBucketCount = 2, countsArrayLength = 3, startTimeStampMsec = 0,
       endTimeStampMsec = 0, leadingZeroCountBase = 50, subBucketHalfCountMagnitude = 0,
       unitMagnitude = 2, subBucketHalfCount = 1, subBucketMask = 4, unitMagnitudeMask = 3,
       maxValue = 0, minNonZeroValue = 18446744073709551615, counts = [0, 0, 0],
       totalCount = 0 \<rparr>"

text \<open>\<open>histogram_unit2\<close> is the state that \<open>new Histogram64(2, 4, 0)\<close> constructs.\<close>

definition histogram_unit2 :: Histogram where
  "histogram_unit2 =
     \<lparr> counterBits = 64, autoResize = False, lowestDiscernibleValue = 2,
       highestTrackableValue = 4, numberOfSignificantValueDigits = 0, bucketCount = 2,
       subBucketCount = 2, countsArrayLength = 3, startTimeStampMsec = 0,
       endTimeStampMsec = 0, leadingZeroCountBase = 51, subBucketHalfCountMagnitude = 0,
       unitMagnitude = 1, subBucketHalfCount = 1, subBucketMask = 2, unitMagnitudeMask = 1,
       maxValue = 0, minNonZeroValue = 18446744073709551615, counts = [0, 0, 0],
       totalCount = 0 \<rparr>"

text \<open>
  \<open>histogram_wide\<close> is the state that \<open>new Histogram64(1, 2 ^ 60, 3)\<close> constructs
  (\<open>2 ^ 60 = 1152921504606846976\<close>).
\<close>

definition histogram_wide :: Histogram where
  "histogram_wide =
     \<lparr> counterBits = 64, autoResize = False, lowestDiscernibleValue = 1,
       highestTrackableValue = 1152921504606846976, numberOfSignificantValueDigits = 3,
       bucketCount = 51, subBucketCount = 2048, countsArrayLength = 53248,
       startTimeStampMsec = 0, endTimeStampMsec = 0, leadingZeroCountBase = 42,
       subBucketHalfCountMagnitude = 10, unitMagnitude = 0, subBucketHalfCount = 1024,
       subBucketMask = 2047, unitMagnitudeMask = 0, maxValue = 0,
       minNonZeroValue = 18446744073709551615, counts = replicate 53248 0,
       totalCount = 0 \<rparr>"

text \<open>
  \<open>histogram_rounded\<close> is the state that \<open>new Histogram64(2 ^ 49 - 1, 2 ^ 50, 0)\<close> constructs:
  the logarithm of the lowest discernible value \<open>562949953421311\<close> rounds to \<open>49\<close>.
\<close>

definition histogram_rounded :: Histogram where
  "histogram_rounded =
     \<lparr> counterBits = 64, autoResize = False, lowestDiscernibleValue = 562949953421311,
       highestTrackableValue = 1125899906842624, numberOfSignificantValueDigits = 0,
       bucketCount = 2, subBucketCount = 2, countsArrayLength = 3, startTimeStampMsec = 0,
       endTimeStampMsec = 0, leadingZeroCountBase = 3, subBucketHalfCountMagnitude = 0,
       unitMagnitude = 49, subBucketHalfCount = 1, subBucketMask = 562949953421312,
       unitMagnitudeMask = 562949953421311, maxValue = 0,
       minNonZeroValue = 18446744073709551615, counts = [0, 0, 0], totalCount = 0 \<rparr>"

text \<open>\<open>recorded_100\<close> is \<open>histogram64\<close> after \<open>recordValue(100)\<close>.\<close>

definition recorded_100 :: Histogram where
  "recorded_100 =
     histogram64\<lparr>maxValue := 100, minNonZeroValue := 100,
       counts := [0, 0, 0, 0, 0, 0, 0, 1, 0, 0, 0], totalCount := 1\<rparr>"

text \<open>
  \<open>recorded_mixed\<close> is \<open>histogram64\<close> after \<open>recordCountAtValue(5, 2)\<close> and
  \<open>recordCountAtValue(5, 100)\<close>.
\<close>

definition recorded_mixed :: Histogram where
  "recorded_mixed =
     histogram64\<lparr>maxValue := 100, minNonZeroValue := 2,
       counts := [0, 0, 5, 0, 0, 0, 0, 5, 0, 0, 0], totalCount := 10\<rparr>"

text \<open>\<open>recorded_2\<close> is \<open>histogram_unit4\<close> after \<open>recordValue(2)\<close>.\<close>

definition recorded_2 :: Histogram where
  "recorded_2 = histogram_unit4\<lparr>maxValue := 5, counts := [1, 0, 0], totalCount := 1\<rparr>"

text \<open>
  \<open>full8\<close> is \<open>histogram8\<close> after \<open>recordCountAtValue(255, 2)\<close>, \<open>wrapped8\<close> is \<open>full8\<close> after
  \<open>recordValue(2)\<close>, and \<open>wrapped8_again\<close> is \<open>wrapped8\<close> after another \<open>recordValue(2)\<close>.
\<close>

definition full8 :: Histogram where
  "full8 = histogram8\<lparr>maxValue := 2, minNonZeroValue := 2, counts := [0, 0, 255],
     totalCount := 255\<rparr>"

definition wrapped8 :: Histogram where
  "wrapped8 = histogram8\<lparr>maxValue := 2, minNonZeroValue := 2, counts := [0, 0, 0],
     totalCount := 256\<rparr>"

definition wrapped8_again :: Histogram where
  "wrapped8_again = histogram8\<lparr>maxValue := 2, minNonZeroValue := 2, counts := [0, 0, 1],
     totalCount := 257\<rparr>"

text \<open>
  \<open>recorded_4\<close> is \<open>histogram_unit2\<close> after \<open>recordValue(4)\<close>, and \<open>merged_4\<close> is a fresh
  \<open>histogram_unit2\<close> after \<open>add(recorded_4)\<close>.
\<close>

definition recorded_4 :: Histogram where
  "recorded_4 = histogram_unit2\<lparr>maxValue := 5, minNonZeroValue := 4, counts := [0, 0, 1],
     totalCount := 1\<rparr>"

definition merged_4 :: Histogram where
  "merged_4 = histogram_unit2\<lparr>maxValue := 6, minNonZeroValue := 4, counts := [0, 0, 1],
     totalCount := 1\<rparr>"

text \<open>\<open>recorded_5\<close> is \<open>histogram64\<close> after \<open>recordValue(5)\<close>.\<close>

definition recorded_5 :: Histogram where
  "recorded_5 = histogram64\<lparr>maxValue := 5, minNonZeroValue := 5,
     counts := [0, 0, 0, 1, 0, 0, 0, 0, 0, 0, 0], totalCount := 1\<rparr>"

text \<open>
  \<open>histogram_default\<close> is the state that \<open>new Histogram64(1, 2, 3)\<close> constructs, and
  \<open>corrected_1000\<close> is that state after \<open>recordSingleValueWithExpectedInterval(1000, 100)\<close>.
\<close>

definition histogram_default :: Histogram where
  "histogram_default =
     \<lparr> counterBits = 64, autoResize = False, lowestDiscernibleValue = 1,
       highestTrackableValue = 2, numberOfSignificantValueDigits = 3, bucketCount = 1,
       subBucketCount = 2048, countsArrayLength = 2048, startTimeStampMsec = 0,
       endTimeStampMsec = 0, leadingZeroCountBase = 42, subBucketHalfCountMagnitude = 10,
       unitMagnitude = 0, subBucketHalfCount = 1024, subBucketMask = 2047,
       unitMagnitudeMask = 0, maxValue = 0, minNonZeroValue = 18446744073709551615,
       counts = replicate 2048 0, totalCount = 0 \<rparr>"

definition corrected_1000 :: Histogram where
  "corrected_1000 =
     histogram_default\<lparr>maxValue := 1000, minNonZeroValue := 100,
       counts := (replicate 2048 0)[1000 := 1, 900 := 1, 800 := 1, 700 := 1, 600 := 1,
         500 := 1, 400 := 1, 300 := 1, 200 := 1, 100 := 1],
       totalCount := 10\<rparr>"

section \<open>Logarithms and the conversion to double\<close>

lemma floor_log2_bounds:
  "0 < n \<Longrightarrow> 2 ^ floor_log2 n \<le> n \<and> n < 2 ^ Suc (floor_log2 n)"
proof (induction n rule: floor_log2.induct)
  case (1 n)
  show ?case
  proof (cases "n < 2")
    case True
    with "1.prems" have "n = 1" by simp
    then show ?thesis by (simp add: floor_log2.simps)
  next
    case False
    then have pos: "0 < n div 2" by simp
    from "1.IH" [OF False pos]
    have lo: "2 ^ floor_log2 (n div 2) \<le> n div 2" and hi: "n div 2 < 2 ^ Suc (floor_log2 (n div 2))"
      by simp_all
    have eq: "floor_log2 n = Suc (floor_log2 (n div 2))"
      using False by (subst floor_log2.simps) simp
    from lo have "2 * 2 ^ floor_log2 (n div 2) \<le> n" by linarith
    moreover from hi have "n < 2 * 2 ^ Suc (floor_log2 (n div 2))" by linarith
    ultimately show ?thesis by (simp add: eq)
  qed
qed

lemma floor_log2_unique:
  assumes "2 ^ k \<le> n" and "n < 2 ^ Suc k"
  shows "floor_log2 n = k"
proof -
  from assms(1) have pos: "0 < n"
    by (metis less_le_trans zero_less_numeral zero_less_power)
  note b = floor_log2_bounds [OF pos]
  have "\<not> floor_log2 n < k"
  proof
    assume "floor_log2 n < k"
    then have "Suc (floor_log2 n) \<le> k" by simp
    then have "(2::nat) ^ Suc (floor_log2 n) \<le> 2 ^ k"
      by (rule power_increasing) simp
    with b assms(1) show False by linarith
  qed
  moreover have "\<not> k < floor_log2 n"
  proof
    assume "k < floor_log2 n"
    then have "Suc k \<le> floor_log2 n" by simp
    then have "(2::nat) ^ Suc k \<le> 2 ^ floor_log2 n"
      by (rule power_increasing) simp
    with b assms(2) show False by linarith
  qed
  ultimately show ?thesis by simp
qed

lemma floor_log2_shift:
  assumes "0 < s"
  shows "floor_log2 (s * 2 ^ k) = floor_log2 s + k"
proof (rule floor_log2_unique)
  note b = floor_log2_bounds [OF assms]
  from b have "2 ^ floor_log2 s * 2 ^ k \<le> s * (2::nat) ^ k" by simp
  then show "2 ^ (floor_log2 s + k) \<le> s * 2 ^ k" by (simp add: power_add)
  from b have "s * 2 ^ k < 2 ^ Suc (floor_log2 s) * (2::nat) ^ k" by simp
  then show "s * 2 ^ k < 2 ^ Suc (floor_log2 s + k)" by (simp add: power_add)
qed

lemma floor_log2_less:
  assumes "n < 2 ^ k" "0 < k"
  shows "floor_log2 n < k"
proof (cases "n = 0")
  case True
  then show ?thesis using assms by (simp add: floor_log2.simps)
next
  case False
  then have "2 ^ floor_log2 n \<le> n" using floor_log2_bounds by simp
  with assms have "(2::nat) ^ floor_log2 n < 2 ^ k" by linarith
  then show ?thesis by (simp add: power_strict_increasing_iff)
qed

lemma to_f64_exact:
  assumes "s < 2 ^ 53"
  shows "to_f64 (s * 2 ^ k) = s * 2 ^ k"
proof (cases "s * 2 ^ k < 2 ^ 53")
  case True
  then show ?thesis by (simp add: to_f64_def)
next
  case False
  then have pos: "0 < s" by (cases "s = 0") simp_all
  define e where "e = floor_log2 (s * 2 ^ k) - 52"
  have fl: "floor_log2 (s * 2 ^ k) = floor_log2 s + k"
    by (rule floor_log2_shift [OF pos])
  have "floor_log2 s < 53" using assms by (intro floor_log2_less) simp_all
  then have ek: "e \<le> k" by (simp add: e_def fl)
  have "53 \<le> floor_log2 (s * 2 ^ k)"
  proof (rule ccontr)
    assume "\<not> 53 \<le> floor_log2 (s * 2 ^ k)"
    then have "Suc (floor_log2 (s * 2 ^ k)) \<le> 53" by simp
    then have "(2::nat) ^ Suc (floor_log2 (s * 2 ^ k)) \<le> 2 ^ 53"
      by (rule power_increasing) simp
    moreover have "s * 2 ^ k < 2 ^ Suc (floor_log2 (s * 2 ^ k))"
      using floor_log2_bounds [of "s * 2 ^ k"] pos by simp
    ultimately show False using False by linarith
  qed
  then have e1: "1 \<le> e" by (simp add: e_def)
  have split: "s * 2 ^ k = (s * 2 ^ (k - e)) * 2 ^ e"
    using ek by (simp add: power_add [symmetric])
  have r0: "(s * 2 ^ k) mod 2 ^ e = 0"
    by (subst split) simp
  have q: "(s * 2 ^ k) div 2 ^ e * 2 ^ e = s * 2 ^ k"
    using r0 by (metis add.right_neutral div_mult_mod_eq)
  have half: "(0::nat) < 2 ^ (e - 1)" by simp
  show ?thesis
    using False r0 q half
    by (simp add: to_f64_def Let_def e_def [symmetric])
qed

lemma to_f64_bounds:
  assumes "0 < v"
  shows "2 ^ floor_log2 v \<le> to_f64 v \<and> to_f64 v \<le> 2 ^ Suc (floor_log2 v)"
proof (cases "v < 2 ^ 53")
  case True
  then show ?thesis using floor_log2_bounds [OF assms] by (simp add: to_f64_def)
next
  case False
  define f where "f = floor_log2 v"
  define e where "e = f - 52"
  define q where "q = v div 2 ^ e"
  note b = floor_log2_bounds [OF assms, folded f_def]
  have f53: "53 \<le> f"
  proof (rule ccontr)
    assume "\<not> 53 \<le> f"
    then have "Suc f \<le> 53" by simp
    then have "(2::nat) ^ Suc f \<le> 2 ^ 53" by (rule power_increasing) simp
    with b False show False by linarith
  qed
  then have fe: "f = 52 + e" by (simp add: e_def)
  have qlo: "2 ^ 52 \<le> q"
  proof -
    have "2 ^ 52 * 2 ^ e \<le> v" using b by (simp add: fe power_add)
    then have "(2 ^ 52 * 2 ^ e) div 2 ^ e \<le> v div 2 ^ e" by (rule div_le_mono)
    then show ?thesis by (simp add: q_def)
  qed
  have qhi: "q < 2 ^ 53"
  proof -
    have "v < 2 ^ 53 * 2 ^ e" using b by (simp add: fe power_add)
    then show ?thesis unfolding q_def by (simp add: less_mult_imp_div_less)
  qed
  have lo1: "2 ^ f \<le> q * 2 ^ e"
    using qlo by (simp add: fe power_add)
  have hi1: "(q + 1) * 2 ^ e \<le> 2 ^ Suc f"
  proof -
    from qhi have "q + 1 \<le> 2 ^ 53" by simp
    then have "(q + 1) * 2 ^ e \<le> 2 ^ 53 * 2 ^ e" by (rule mult_le_mono1)
    then show ?thesis by (simp add: fe power_add)
  qed
  have le: "q * 2 ^ e \<le> (q + 1) * 2 ^ e" by simp
  have "to_f64 v = q * 2 ^ e \<or> to_f64 v = (q + 1) * 2 ^ e"
    using False by (simp add: to_f64_def Let_def f_def [symmetric] e_def [symmetric] q_def [symmetric])
  then show ?thesis
    using lo1 hi1 le unfolding f_def [symmetric] by (elim disjE) linarith+
qed

lemma floor_log2_to_f64_le:
  assumes "0 < v" "v < 2 ^ k"
  shows "floor_log2 (to_f64 v) \<le> k"
proof -
  have fk: "floor_log2 v < k"
  proof (cases "k = 0")
    case True
    with assms show ?thesis by simp
  next
    case False
    then show ?thesis using assms(2) by (intro floor_log2_less) simp_all
  qed
  then have "Suc (floor_log2 v) \<le> k" by simp
  then have "(2::nat) ^ Suc (floor_log2 v) \<le> 2 ^ k" by (rule power_increasing) simp
  with to_f64_bounds [OF assms(1)] have le: "to_f64 v \<le> 2 ^ k" by linarith
  show ?thesis
  proof (cases "to_f64 v = 2 ^ k")
    case True
    have "floor_log2 (2 ^ k) = k" by (rule floor_log2_unique) simp_all
    with True show ?thesis by simp
  next
    case False
    with le have lt: "to_f64 v < 2 ^ k" by simp
    show ?thesis
    proof (cases "k = 0")
      case True
      with lt to_f64_bounds [OF assms(1)] show ?thesis by simp
    next
      case False
      with lt have "floor_log2 (to_f64 v) < k" by (intro floor_log2_less) simp_all
      then show ?thesis by simp
    qed
  qed
qed

lemma log2_rounds_up_pow2: "\<not> log2_rounds_up (2 ^ k)"
proof -
  have fl: "floor_log2 (2 ^ k) = k" by (rule floor_log2_unique) simp_all
  have "(22::nat) * 2 ^ k < 2 ^ 52 * 2 ^ k" by simp
  then show ?thesis by (simp add: log2_rounds_up_def fl)
qed

lemma log2_rounds_down_pow2: "log2_rounds_down (2 ^ k)"
proof -
  have fl: "floor_log2 (2 ^ k) = k" by (rule floor_log2_unique) simp_all
  show ?thesis by (simp add: log2_rounds_down_def fl)
qed

lemma not_log2_rounds_up:
  assumes pos: "0 < s" and s_hi: "s < 2 ^ Suc m" and m17: "m \<le> 17"
  shows "\<not> log2_rounds_up (s * 2 ^ k)"
proof -
  define f where "f = floor_log2 s"
  note b = floor_log2_bounds [OF pos, folded f_def]
  have fl: "floor_log2 (s * 2 ^ k) = f + k"
    unfolding f_def by (rule floor_log2_shift [OF pos])
  have fm: "f \<le> m"
  proof -
    have "f < Suc m" unfolding f_def using s_hi by (intro floor_log2_less) simp_all
    then show ?thesis by simp
  qed
  from b have "s < 2 ^ Suc f" by simp
  then have "Suc 0 \<le> 2 ^ Suc f - s" by linarith
  then have "Suc 0 * 2 ^ k \<le> (2 ^ Suc f - s) * 2 ^ k" by (rule mult_le_mono1)
  then have gap: "2 ^ k \<le> 2 ^ Suc (f + k) - s * 2 ^ k"
    by (simp add: diff_mult_distrib power_add)
  have "(2::nat) ^ f \<le> 2 ^ 17" using fm m17 by (intro power_increasing) simp_all
  then have "(22::nat) * 2 ^ f < 2 ^ 52" by simp
  then have "22 * 2 ^ f * 2 ^ k < (2::nat) ^ 52 * 2 ^ k" by simp
  then have "22 * 2 ^ (f + k) < (2::nat) ^ k * 2 ^ 52" by (simp add: power_add mult.commute)
  also have "\<dots> \<le> (2 ^ Suc (f + k) - s * 2 ^ k) * 2 ^ 52" using gap by (rule mult_le_mono1)
  finally show ?thesis by (simp add: log2_rounds_up_def fl)
qed

lemma floor_log2_f64_exact:
  assumes pos: "0 < s" and s_hi: "s < 2 ^ Suc m" and m17: "m \<le> 17"
  shows "floor_log2_f64 (s * 2 ^ k) = Some (int (floor_log2 s + k))"
proof -
  have "(2::nat) ^ Suc m \<le> 2 ^ 53" using m17 by (intro power_increasing) simp_all
  with s_hi have "s < 2 ^ 53" by linarith
  then have exact: "to_f64 (s * 2 ^ k) = s * 2 ^ k" by (rule to_f64_exact)
  have nz: "s * 2 ^ k \<noteq> 0" using pos by simp
  show ?thesis
    using nz not_log2_rounds_up [OF assms, of k]
    by (simp add: floor_log2_f64_def exact floor_log2_shift [OF pos])
qed

lemma floor_log2_f64_range:
  assumes "0 < v" "v < 2 ^ k"
  shows "\<exists>l. floor_log2_f64 v = Some (int l) \<and> l \<le> k"
proof -
  define x where "x = to_f64 v"
  have fk: "floor_log2 v < k"
  proof (cases "k = 0")
    case True
    with assms show ?thesis by simp
  next
    case False
    then show ?thesis using assms(2) by (intro floor_log2_less) simp_all
  qed
  then have "Suc (floor_log2 v) \<le> k" by simp
  then have "(2::nat) ^ Suc (floor_log2 v) \<le> 2 ^ k" by (rule power_increasing) simp
  with to_f64_bounds [OF assms(1)] have le: "x \<le> 2 ^ k" unfolding x_def by linarith
  have v0: "v \<noteq> 0" using assms(1) by simp
  have val: "floor_log2_f64 v =
      Some (int (if log2_rounds_up x then Suc (floor_log2 x) else floor_log2 x))"
    using v0 by (simp add: floor_log2_f64_def x_def)
  show ?thesis
  proof (cases "x = 2 ^ k")
    case True
    have "floor_log2 (2 ^ k) = k" by (rule floor_log2_unique) simp_all
    then show ?thesis using log2_rounds_up_pow2 [of k] by (simp add: val True)
  next
    case False
    with le have lt: "x < 2 ^ k" by simp
    have kpos: "0 < k"
    proof (cases "k = 0")
      case True
      with assms show ?thesis by simp
    next
      case False
      then show ?thesis by simp
    qed
    from lt kpos have "floor_log2 x < k" by (rule floor_log2_less)
    then show ?thesis by (simp add: val)
  qed
qed

text \<open>Rules that evaluate \<open>floor_log2\<close> on a numeral.\<close>

lemma floor_log2_0: "floor_log2 0 = 0"
  by (simp add: floor_log2.simps)

lemma floor_log2_1: "floor_log2 1 = 0"
  by (simp add: floor_log2.simps)

lemma floor_log2_Suc_0: "floor_log2 (Suc 0) = 0"
  by (simp add: floor_log2.simps)

lemma floor_log2_Bit0: "floor_log2 (numeral (Num.Bit0 n)) = floor_log2 (numeral n) + 1"
proof -
  have "numeral (Num.Bit0 n) = 2 * (numeral n :: nat)"
    by (simp add: numeral_Bit0 mult_2)
  moreover have "\<not> 2 * (numeral n :: nat) < 2" by simp
  ultimately show ?thesis by (subst floor_log2.simps) simp
qed

lemma floor_log2_Bit1: "floor_log2 (numeral (Num.Bit1 n)) = floor_log2 (numeral n) + 1"
proof -
  have e: "numeral (Num.Bit1 n) = 2 * (numeral n :: nat) + 1"
    by (simp add: numeral_Bit1 mult_2)
  have "\<not> 2 * (numeral n :: nat) + 1 < 2" by simp
  moreover have "(2 * (numeral n :: nat) + 1) div 2 = numeral n" by simp
  ultimately show ?thesis unfolding e by (subst floor_log2.simps) simp
qed

lemmas floor_log2_eval = floor_log2_0 floor_log2_1 floor_log2_Suc_0 floor_log2_Bit0 floor_log2_Bit1

subsection \<open>The rounding of the logarithm\<close>

text \<open>
  Two bounds on the logarithm of \<open>2\<close>, and with them the position of the logarithm of
  a double next to a power of two: just below \<open>2 ^ k\<close> it lies within \<open>2 ^ - 48\<close> of \<open>k\<close> for
  22 doubles, just above for 11.
\<close>

lemma ln2_lower: "(688 / 1000 :: real) \<le> ln 2"
proof -
  define a :: real where "a = 16173849 / 16000000"
  have p2: "a ^ 2 \<le> 102184919 / 100000000" by (simp add: a_def power2_eq_square)
  have "a ^ 4 = (a ^ 2)\<^sup>2" by (simp flip: power_mult)
  also have "\<dots> \<le> (102184919 / 100000000)\<^sup>2" using p2 by (intro power_mono) (simp_all add: a_def)
  also have "\<dots> \<le> 104417577 / 100000000" by (simp add: power2_eq_square)
  finally have p4: "a ^ 4 \<le> 104417577 / 100000000" .
  have "a ^ 8 = (a ^ 4)\<^sup>2" by (simp flip: power_mult)
  also have "\<dots> \<le> (104417577 / 100000000)\<^sup>2" using p4 by (intro power_mono) (simp_all add: a_def)
  also have "\<dots> \<le> 3407197 / 3125000" by (simp add: power2_eq_square)
  finally have p8: "a ^ 8 \<le> 3407197 / 3125000" .
  have "a ^ 16 = (a ^ 8)\<^sup>2" by (simp flip: power_mult)
  also have "\<dots> \<le> (3407197 / 3125000)\<^sup>2" using p8 by (intro power_mono) (simp_all add: a_def)
  also have "\<dots> \<le> 14859509 / 12500000" by (simp add: power2_eq_square)
  finally have p16: "a ^ 16 \<le> 14859509 / 12500000" .
  have "a ^ 32 = (a ^ 16)\<^sup>2" by (simp flip: power_mult)
  also have "\<dots> \<le> (14859509 / 12500000)\<^sup>2" using p16 by (intro power_mono) (simp_all add: a_def)
  also have "\<dots> \<le> 28263041 / 20000000" by (simp add: power2_eq_square)
  finally have p32: "a ^ 32 \<le> 28263041 / 20000000" .
  have "a ^ 64 = (a ^ 32)\<^sup>2" by (simp flip: power_mult)
  also have "\<dots> \<le> (28263041 / 20000000)\<^sup>2" using p32 by (intro power_mono) (simp_all add: a_def)
  also have "\<dots> \<le> 6240621 / 3125000" by (simp add: power2_eq_square)
  finally have p64: "a ^ 64 \<le> 6240621 / 3125000" .
  have "exp (688 / 1000 :: real) = exp (of_nat 64 * (43 / 4000))" by simp
  also have "\<dots> = exp (43 / 4000) ^ 64" by (rule exp_of_nat_mult)
  also have "\<dots> \<le> (1 + 43 / 4000 + (43 / 4000)\<^sup>2) ^ 64"
    by (intro power_mono exp_bound) simp_all
  also have "\<dots> = a ^ 64" by (simp add: a_def power2_eq_square)
  also have "\<dots> \<le> 2" using p64 by simp
  finally have "exp (688 / 1000 :: real) \<le> 2" .
  then show ?thesis by (subst ln_ge_iff) simp_all
qed

lemma ln2_upper: "ln 2 < (23 / 32 :: real)"
proof -
  have "(2 :: real) < (1 + 23 / 64 + (23 / 64)\<^sup>2 / 2) ^ 2" by (simp add: power2_eq_square)
  also have "\<dots> \<le> exp (23 / 64) ^ 2"
    by (intro power_mono exp_lower_Taylor_quadratic) simp_all
  also have "\<dots> = exp (of_nat 2 * (23 / 64))" by (rule exp_of_nat_mult [symmetric])
  also have "\<dots> = exp (23 / 32)" by simp
  finally have "exp (ln 2) < exp (23 / 32 :: real)" by simp
  then show ?thesis by (simp only: exp_less_cancel_iff)
qed


lemma log2_scaled:
  assumes "0 < y"
  shows "log 2 (2 ^ k * y) = real k + log 2 y"
proof -
  have "log 2 (2 ^ k * y) = log 2 (2 ^ k) + log 2 y"
    using assms by (simp add: log_mult)
  then show ?thesis by simp
qed

lemma log2_just_below:
  fixes j k :: nat
  assumes "j \<le> 22"
  shows "real k - 1 / 2 ^ 48 \<le> log 2 (2 ^ k * (1 - real j / 2 ^ 53))"
proof -
  define t :: real where "t = real j / 2 ^ 53"
  define T :: real where "T = 22 / 2 ^ 53"
  have t0: "0 \<le> t" by (simp add: t_def)
  have "real j \<le> 22" using assms by simp
  then have tT: "t \<le> T" by (simp add: t_def T_def divide_right_mono)
  have Thalf: "T \<le> 1 / 2" by (simp add: T_def)
  have thalf: "t \<le> 1 / 2" using tT Thalf by linarith
  have "t * t \<le> T * T" using t0 tT by (intro mult_mono) simp_all
  then have "t + 2 * t\<^sup>2 \<le> T + 2 * T\<^sup>2" using tT by (simp add: power2_eq_square)
  also have "\<dots> \<le> (688 / 1000) / 2 ^ 48" by (simp add: T_def power2_eq_square)
  also have "\<dots> \<le> ln 2 / 2 ^ 48" using ln2_lower by (intro divide_right_mono) simp_all
  finally have b: "t + 2 * t\<^sup>2 \<le> ln 2 / 2 ^ 48" .
  have "- (ln 2 / 2 ^ 48) \<le> - t - 2 * t\<^sup>2" using b by linarith
  also have "\<dots> \<le> ln (1 - t)" using t0 thalf by (rule ln_one_minus_pos_lower_bound)
  finally have "- (ln 2 / 2 ^ 48) \<le> ln (1 - t)" .
  moreover have l2: "0 < ln (2::real)" by simp
  ultimately have "- (1 / 2 ^ 48) \<le> ln (1 - t) / ln 2"
    by (simp add: field_simps)
  then have "- (1 / 2 ^ 48) \<le> log 2 (1 - t)" by (simp add: log_def)
  moreover have "log 2 (2 ^ k * (1 - t)) = real k + log 2 (1 - t)"
    using thalf by (intro log2_scaled) simp
  ultimately show ?thesis unfolding t_def by linarith
qed

lemma log2_not_just_below:
  fixes j k :: nat
  assumes "23 \<le> j" and "j < 2 ^ 53"
  shows "log 2 (2 ^ k * (1 - real j / 2 ^ 53)) < real k - 1 / 2 ^ 48"
proof -
  define t :: real where "t = real j / 2 ^ 53"
  have "real j < 2 ^ 53" using assms(2) by (metis of_nat_less_iff of_nat_numeral of_nat_power)
  then have t1: "t < 1" by (simp add: t_def)
  have t0: "0 \<le> t" by (simp add: t_def)
  have "(23::real) \<le> real j" using assms(1) by simp
  then have lo: "23 / 2 ^ 53 \<le> t" by (simp add: t_def divide_right_mono)
  have "ln (1 - t) \<le> - t" using t0 t1 by (rule ln_one_minus_pos_upper_bound)
  also have "\<dots> \<le> - (23 / 2 ^ 53)" using lo by simp
  also have "\<dots> = - ((23 / 32) / 2 ^ 48)" by simp
  also have "\<dots> < - (ln 2 / 2 ^ 48)" using ln2_upper by (simp add: divide_strict_right_mono)
  finally have "ln (1 - t) < - (ln 2 / 2 ^ 48)" .
  moreover have l2: "0 < ln (2::real)" by simp
  ultimately have "ln (1 - t) / ln 2 < - (1 / 2 ^ 48)"
    by (simp add: field_simps)
  then have "log 2 (1 - t) < - (1 / 2 ^ 48)" by (simp add: log_def)
  moreover have "log 2 (2 ^ k * (1 - t)) = real k + log 2 (1 - t)"
    using t1 by (intro log2_scaled) simp
  ultimately show ?thesis unfolding t_def by linarith
qed

lemma log2_just_above:
  fixes j k :: nat
  assumes "j \<le> 11"
  shows "log 2 (2 ^ k * (1 + real j / 2 ^ 52)) \<le> real k + 1 / 2 ^ 48"
proof -
  define s :: real where "s = real j / 2 ^ 52"
  have s0: "0 \<le> s" by (simp add: s_def)
  have "real j \<le> 11" using assms by simp
  then have hi: "s \<le> 11 / 2 ^ 52" by (simp add: s_def divide_right_mono)
  have "ln (1 + s) \<le> s" using s0 by (rule ln_add_one_self_le_self)
  also have "\<dots> \<le> 11 / 2 ^ 52" by (rule hi)
  also have "\<dots> \<le> (688 / 1000) / 2 ^ 48" by simp
  also have "\<dots> \<le> ln 2 / 2 ^ 48" using ln2_lower by (intro divide_right_mono) simp_all
  finally have "ln (1 + s) \<le> ln 2 / 2 ^ 48" .
  moreover have l2: "0 < ln (2::real)" by simp
  ultimately have "ln (1 + s) / ln 2 \<le> 1 / 2 ^ 48"
    by (simp add: field_simps)
  then have "log 2 (1 + s) \<le> 1 / 2 ^ 48" by (simp add: log_def)
  moreover have "log 2 (2 ^ k * (1 + s)) = real k + log 2 (1 + s)"
    using s0 by (intro log2_scaled) linarith
  ultimately show ?thesis unfolding s_def by linarith
qed

lemma log2_not_just_above:
  fixes j k :: nat
  assumes "12 \<le> j"
  shows "real k + 1 / 2 ^ 48 < log 2 (2 ^ k * (1 + real j / 2 ^ 52))"
proof -
  define s :: real where "s = real j / 2 ^ 52"
  define S :: real where "S = 12 / 2 ^ 52"
  have "(12::real) \<le> real j" using assms by simp
  then have Ss: "S \<le> s" by (simp add: s_def S_def divide_right_mono)
  have S0: "0 \<le> S" and S1: "S \<le> 1" by (simp_all add: S_def)
  have "ln (2::real) / 2 ^ 48 < (23 / 32) / 2 ^ 48"
    using ln2_upper by (simp add: divide_strict_right_mono)
  also have "\<dots> \<le> S - S\<^sup>2" by (simp add: S_def power2_eq_square)
  also have "\<dots> \<le> ln (1 + S)" using S0 S1 by (rule ln_one_plus_pos_lower_bound)
  also have "\<dots> \<le> ln (1 + s)" using S0 Ss by simp
  finally have "ln 2 / 2 ^ 48 < ln (1 + s)" .
  moreover have l2: "0 < ln (2::real)" by simp
  ultimately have "1 / 2 ^ 48 < ln (1 + s) / ln 2"
    by (simp add: field_simps)
  then have "1 / 2 ^ 48 < log 2 (1 + s)" by (simp add: log_def)
  moreover have "log 2 (2 ^ k * (1 + s)) = real k + log 2 (1 + s)"
    using S0 Ss by (intro log2_scaled) linarith
  ultimately show ?thesis unfolding s_def by linarith
qed

text \<open>
  Both tests are unchanged when the argument is doubled, and on a significand \<open>m\<close> between
  \<open>2 ^ 52\<close> and \<open>2 ^ 53\<close> they compare its distance from the power of two with \<open>22\<close> and
  \<open>11\<close>.
\<close>

lemma log2_rounds_up_scale:
  assumes "0 < x"
  shows "log2_rounds_up (x * 2 ^ n) = log2_rounds_up x"
proof -
  define e where "e = floor_log2 x"
  have fl: "floor_log2 (x * 2 ^ n) = e + n" unfolding e_def by (rule floor_log2_shift [OF assms])
  have l: "(2 ^ Suc (e + n) - x * 2 ^ n) * 2 ^ 52 = ((2 ^ Suc e - x) * 2 ^ 52) * 2 ^ n"
    by (simp add: diff_mult_distrib power_add)
  have r: "22 * 2 ^ (e + n) = (22 * 2 ^ e) * (2::nat) ^ n" by (simp add: power_add)
  show ?thesis
    unfolding log2_rounds_up_def fl e_def [symmetric] l r by simp
qed

lemma log2_rounds_down_scale:
  assumes "0 < x"
  shows "log2_rounds_down (x * 2 ^ n) = log2_rounds_down x"
proof -
  define e where "e = floor_log2 x"
  have fl: "floor_log2 (x * 2 ^ n) = e + n" unfolding e_def by (rule floor_log2_shift [OF assms])
  have l: "(x * 2 ^ n - 2 ^ (e + n)) * 2 ^ 52 = ((x - 2 ^ e) * 2 ^ 52) * 2 ^ n"
    by (simp add: diff_mult_distrib power_add)
  have r: "11 * 2 ^ (e + n) = (11 * 2 ^ e) * (2::nat) ^ n" by (simp add: power_add)
  show ?thesis
    unfolding log2_rounds_down_def fl e_def [symmetric] l r by simp
qed

text \<open>
  A positive double with an integral value \<open>x\<close> has a significand \<open>m\<close> with
  \<open>2 ^ 52 \<le> m < 2 ^ 53\<close> and \<open>x = m * 2 ^ b\<close> or \<open>x * 2 ^ a = m\<close>. On every such \<open>x\<close> the two
  tests say how the real logarithm lies to the integer next to it.
\<close>

lemma log2_rounds_up_iff:
  assumes m: "2 ^ 52 \<le> m" "m < 2 ^ 53" and x: "x * 2 ^ a = m * 2 ^ b"
  shows "log2_rounds_up x \<longleftrightarrow> real (53 + b) - real a - 1 / 2 ^ 48 \<le> log 2 (real x)"
proof -
  have mpos: "0 < m" using m(1) by (metis less_le_trans zero_less_numeral zero_less_power)
  have xpos: "0 < x" using x mpos by (cases "x = 0") simp_all
  define j where "j = 2 ^ 53 - m"
  have j1: "j < 2 ^ 53" using mpos by (simp add: j_def)
  have mj: "real m = 2 ^ 53 * (1 - real j / 2 ^ 53)"
    using m(2) by (simp add: j_def field_simps of_nat_diff)
  have fl: "floor_log2 m = 52" using m by (intro floor_log2_unique) simp_all
  have "log2_rounds_up x = log2_rounds_up (x * 2 ^ a)"
    by (rule log2_rounds_up_scale [OF xpos, symmetric])
  also have "\<dots> = log2_rounds_up m" unfolding x by (rule log2_rounds_up_scale [OF mpos])
  also have "\<dots> \<longleftrightarrow> j \<le> 22" by (simp add: log2_rounds_up_def fl j_def)
  finally have test: "log2_rounds_up x \<longleftrightarrow> j \<le> 22" .
  have "real x * 2 ^ a = real m * 2 ^ b" using x by (metis of_nat_mult of_nat_numeral of_nat_power)
  then have rx: "real x = 2 ^ b * (real m / 2 ^ a)" by (simp add: field_simps)
  have "log 2 (real x) = real b + log 2 (real m / 2 ^ a)"
    unfolding rx using mpos by (intro log2_scaled) simp
  also have "log 2 (real m / 2 ^ a) = log 2 (real m) - real a"
    using mpos by (simp add: log_divide)
  finally have lx: "log 2 (real x) = real b + log 2 (real m) - real a" by simp
  show ?thesis
  proof (cases "j \<le> 22")
    case True
    from log2_just_below [OF True, of 53]
    have "53 - 1 / 2 ^ 48 \<le> log 2 (real m)" by (simp add: mj)
    with True test lx show ?thesis by simp
  next
    case False
    then have "23 \<le> j" by simp
    from log2_not_just_below [OF this j1, of 53]
    have "log 2 (real m) < 53 - 1 / 2 ^ 48" by (simp add: mj)
    with False test lx show ?thesis by simp
  qed
qed

lemma log2_rounds_down_iff:
  assumes m: "2 ^ 52 \<le> m" "m < 2 ^ 53" and x: "x * 2 ^ a = m * 2 ^ b"
  shows "log2_rounds_down x \<longleftrightarrow> log 2 (real x) \<le> real (52 + b) - real a + 1 / 2 ^ 48"
proof -
  have mpos: "0 < m" using m(1) by (metis less_le_trans zero_less_numeral zero_less_power)
  have xpos: "0 < x" using x mpos by (cases "x = 0") simp_all
  define j where "j = m - 2 ^ 52"
  have mj: "real m = 2 ^ 52 * (1 + real j / 2 ^ 52)"
    using m(1) by (simp add: j_def field_simps of_nat_diff)
  have fl: "floor_log2 m = 52" using m by (intro floor_log2_unique) simp_all
  have "log2_rounds_down x = log2_rounds_down (x * 2 ^ a)"
    by (rule log2_rounds_down_scale [OF xpos, symmetric])
  also have "\<dots> = log2_rounds_down m" unfolding x by (rule log2_rounds_down_scale [OF mpos])
  also have "\<dots> \<longleftrightarrow> j \<le> 11" by (simp add: log2_rounds_down_def fl j_def)
  finally have test: "log2_rounds_down x \<longleftrightarrow> j \<le> 11" .
  have "real x * 2 ^ a = real m * 2 ^ b" using x by (metis of_nat_mult of_nat_numeral of_nat_power)
  then have rx: "real x = 2 ^ b * (real m / 2 ^ a)" by (simp add: field_simps)
  have "log 2 (real x) = real b + log 2 (real m / 2 ^ a)"
    unfolding rx using mpos by (intro log2_scaled) simp
  also have "log 2 (real m / 2 ^ a) = log 2 (real m) - real a"
    using mpos by (simp add: log_divide)
  finally have lx: "log 2 (real x) = real b + log 2 (real m) - real a" by simp
  show ?thesis
  proof (cases "j \<le> 11")
    case True
    from log2_just_above [OF True, of 52]
    have "log 2 (real m) \<le> 52 + 1 / 2 ^ 48" by (simp add: mj)
    with True test lx show ?thesis by simp
  next
    case False
    then have "12 \<le> j" by simp
    from log2_not_just_above [OF this, of 52]
    have "52 + 1 / 2 ^ 48 < log 2 (real m)" by (simp add: mj)
    with False test lx show ?thesis by simp
  qed
qed

section \<open>The sizing loop\<close>

lemma bucketsLoop_zero_aux:
  assumes "bucketsLoop s v n = Some y"
  shows "s \<noteq> 0"
  using assms
proof (rule bucketsLoop.raw_induct [rotated 1, where P = "\<lambda>s v n y. s \<noteq> 0"])
  fix loop :: "nat \<Rightarrow> nat \<Rightarrow> int \<Rightarrow> int option" and s v :: nat and n y :: int
  assume IH: "\<And>s v n y. loop s v n = Some y \<Longrightarrow> s \<noteq> 0"
    and body: "(if s \<le> v then
        (if s > shr64 U64_MAX_VALUE 1 then Some (n + 1)
         else loop (shl64 s 1) v (n + 1))
      else Some n) = Some y"
  show "s \<noteq> 0"
  proof
    assume z: "s = 0"
    with body have "loop 0 v (n + 1) = Some y"
      by (simp add: shr64_def shl64_def U64_MAX_VALUE_def split: if_splits)
    from IH [OF this] show False by simp
  qed
qed

lemma bucketsLoop_zero: "bucketsLoop 0 v n = None"
proof (cases "bucketsLoop 0 v n")
  case None
  then show ?thesis .
next
  case (Some y)
  from bucketsLoop_zero_aux [OF this] show ?thesis by simp
qed

lemma bucketsLoop_result_aux:
  assumes "bucketsLoop s v n = Some y"
  shows "\<forall>k. s = 2 ^ k \<longrightarrow> k \<le> 63 \<longrightarrow> n \<le> y \<and> int k + (y - n) \<le> 64"
  using assms
proof (rule bucketsLoop.raw_induct [rotated 1,
    where P = "\<lambda>s v n y. \<forall>k. s = 2 ^ k \<longrightarrow> k \<le> 63 \<longrightarrow> n \<le> y \<and> int k + (y - n) \<le> 64"])
  fix loop :: "nat \<Rightarrow> nat \<Rightarrow> int \<Rightarrow> int option" and s v :: nat and n y :: int
  assume IH: "\<And>s v n y. loop s v n = Some y \<Longrightarrow>
      \<forall>k. s = 2 ^ k \<longrightarrow> k \<le> 63 \<longrightarrow> n \<le> y \<and> int k + (y - n) \<le> 64"
    and body: "(if s \<le> v then
        (if s > shr64 U64_MAX_VALUE 1 then Some (n + 1)
         else loop (shl64 s 1) v (n + 1))
      else Some n) = Some y"
  have half: "shr64 U64_MAX_VALUE 1 = 2 ^ 63 - 1"
    by (simp add: shr64_def U64_MAX_VALUE_def)
  show "\<forall>k. s = 2 ^ k \<longrightarrow> k \<le> 63 \<longrightarrow> n \<le> y \<and> int k + (y - n) \<le> 64"
  proof (intro allI impI)
    fix k :: nat
    assume sk: "s = 2 ^ k" and k63: "k \<le> 63"
    show "n \<le> y \<and> int k + (y - n) \<le> 64"
    proof (cases "s \<le> v")
      case False
      with body have "y = n" by simp
      with k63 show ?thesis by simp
    next
      case True
      show ?thesis
      proof (cases "s > shr64 U64_MAX_VALUE 1")
        case big: True
        with True body have y: "y = n + 1" by simp
        from k63 show ?thesis by (simp add: y)
      next
        case small: False
        with True body have rec: "loop (shl64 s 1) v (n + 1) = Some y" by simp
        from small have slt: "s < 2 ^ 63" by (simp add: half)
        have k62: "k \<le> 62"
        proof (rule ccontr)
          assume "\<not> k \<le> 62"
          then have "63 \<le> k" by simp
          then have "(2::nat) ^ 63 \<le> 2 ^ k" by (rule power_increasing) simp
          with slt sk show False by simp
        qed
        have "s * 2 < 2 ^ 64" using slt by simp
        then have sh: "shl64 s 1 = 2 ^ Suc k"
          using sk by (simp add: shl64_def)
        from IH [OF rec] have "shl64 s 1 = 2 ^ Suc k \<longrightarrow> Suc k \<le> 63 \<longrightarrow>
            n + 1 \<le> y \<and> int (Suc k) + (y - (n + 1)) \<le> 64"
          by (rule spec)
        with sh k62 have "n + 1 \<le> y \<and> int (Suc k) + (y - (n + 1)) \<le> 64"
          by simp
        then show ?thesis by simp
      qed
    qed
  qed
qed

section \<open>The layout of a constructed histogram\<close>

lemma sub_bucket_magnitude_cases:
  assumes "D \<le> 5"
  shows "\<exists>c. ceil_log2_f64 (mul64 2 (pow10_u64 D)) = Some (int c) \<and> 1 \<le> c \<and> c \<le> 18"
proof -
  note defs = ceil_log2_f64_def log2_rounds_down_def to_f64_def mul64_def pow10_u64_def
    floor_log2_eval
  from assms have "D = 0 \<or> D = 1 \<or> D = 2 \<or> D = 3 \<or> D = 4 \<or> D = 5" by arith
  moreover have "ceil_log2_f64 (mul64 2 (pow10_u64 0)) = Some (int 1)" by (simp add: defs)
  moreover have "ceil_log2_f64 (mul64 2 (pow10_u64 1)) = Some (int 5)" by (simp add: defs)
  moreover have "ceil_log2_f64 (mul64 2 (pow10_u64 2)) = Some (int 8)" by (simp add: defs)
  moreover have "ceil_log2_f64 (mul64 2 (pow10_u64 3)) = Some (int 11)" by (simp add: defs)
  moreover have "ceil_log2_f64 (mul64 2 (pow10_u64 4)) = Some (int 15)" by (simp add: defs)
  moreover have "ceil_log2_f64 (mul64 2 (pow10_u64 5)) = Some (int 18)" by (simp add: defs)
  ultimately show ?thesis by (elim disjE) (simp_all only:, auto)
qed

lemma to_i32_id: "- (2 ^ 31) \<le> x \<Longrightarrow> x < 2 ^ 31 \<Longrightarrow> to_i32 x = x"
  by (simp add: to_i32_def)

lemma to_i32_small: "0 \<le> x \<Longrightarrow> x < 2 ^ 31 \<Longrightarrow> to_i32 x = x"
  by (simp add: to_i32_def)

lemma sat_i32_id: "- (2 ^ 31) \<le> x \<Longrightarrow> x < 2 ^ 31 \<Longrightarrow> sat_i32 x = x"
  by (simp add: sat_i32_def)

lemma init_fields:
  assumes "init bits L H D = Some (Done h)"
  defines "um \<equiv> f64_to_i32 (floor_log2_f64 L)"
  defines "sbcm \<equiv> f64_to_i32 (ceil_log2_f64 (mul64 2 (pow10_u64 D)))"
  shows "\<exists>B. bucketsLoop (shl64 (to_u64 (shl32 1 sbcm)) um) H 1 = Some B
           \<and> bucketCount h = B
           \<and> countsArrayLength h = mul32 (add32 B 1) (shr32 (shl32 1 sbcm) 1)
           \<and> subBucketCount h = shl32 1 sbcm
           \<and> subBucketHalfCount h = shr32 (shl32 1 sbcm) 1
           \<and> subBucketHalfCountMagnitude h = sub32 sbcm 1
           \<and> unitMagnitude h = um
           \<and> unitMagnitudeMask h = sub64 (shl64 1 um) 1
           \<and> counts h = replicate (nat (countsArrayLength h)) 0
           \<and> totalCount h = 0 \<and> maxValue h = 0 \<and> minNonZeroValue h = U64_MAX_VALUE
           \<and> counterBits h = bits \<and> lowestDiscernibleValue h = L \<and> \<not> autoResize h"
  using assms(1) unfolding um_def sbcm_def
  by (auto simp: init_def Let_def then_do_def establishSize_def determineArrayLengthNeeded_def
      getBucketsNeededToCoverValue_def getLengthForNumberOfBuckets_def
      split: option.splits sum.splits if_splits step.splits)

lemma shl32_one: "0 \<le> n \<Longrightarrow> n \<le> 30 \<Longrightarrow> shl32 1 n = 2 ^ nat n"
proof -
  assume a: "0 \<le> n" "n \<le> 30"
  then have m: "n mod 32 = n" by simp
  from a have "nat n \<le> 30" by simp
  then have "(2::int) ^ nat n \<le> 2 ^ 30" by (rule power_increasing) simp
  then have "(2::int) ^ nat n < 2 ^ 31" by simp
  then show ?thesis by (simp add: shl32_def m to_i32_small)
qed

lemma length_for_buckets:
  assumes B1: "1 \<le> B" and B64: "B \<le> 64" and m17: "m \<le> 17"
  shows "mul32 (add32 B 1) (2 ^ m) = (B + 1) * 2 ^ m"
proof -
  have a1: "add32 B 1 = B + 1" using B1 B64 by (simp add: add32_def to_i32_id)
  have "(B + 1) * 2 ^ m \<le> 65 * (2::int) ^ m"
    using B64 by (intro mult_right_mono) simp_all
  also have "\<dots> \<le> 65 * 2 ^ 17"
    using m17 by (intro mult_left_mono power_increasing) simp_all
  finally have hi: "(B + 1) * 2 ^ m < 2 ^ 31" by simp
  have "0 \<le> (B + 1) * (2::int) ^ m" using B1 by simp
  with hi have "mul32 (B + 1) (2 ^ m) = (B + 1) * 2 ^ m"
    by (simp add: mul32_def to_i32_id)
  then show ?thesis by (simp add: a1)
qed

text \<open>
  The unit magnitude of a constructed histogram is what the logarithm of the lowest
  discernible value rounds to: for \<open>L\<close> just below a power of two from \<open>2 ^ 49\<close> on it is the
  exponent of that power.
\<close>

lemma new_Histogram_layout:
  assumes valid: "2 * L \<le> H" "H < 2 ^ 64"
    and new: "new_Histogram bits L H D = Some (Inr h)"
  shows "layout_invariant h \<and> floor_log2_f64 L = Some (unitMagnitude h)"
proof -
  from new have L1: "1 \<le> L" and D5: "D \<le> 5"
    by (auto simp: new_Histogram_def split: if_splits)
  from new have ini: "init bits L H D = Some (Done h)"
    by (auto simp: new_Histogram_def split: if_splits option.splits step.splits)
  from sub_bucket_magnitude_cases [OF D5]
  obtain c where cl: "ceil_log2_f64 (mul64 2 (pow10_u64 D)) = Some (int c)"
    and c1: "1 \<le> c" and c18: "c \<le> 18" by blast
  define m where "m = c - 1"
  have cm: "c = Suc m" using c1 by (simp add: m_def)
  have m17: "m \<le> 17" using c18 by (simp add: m_def)
  from valid have "L < 2 ^ 63" by simp
  with L1 floor_log2_f64_range [of L 63]
  obtain u where ul: "floor_log2_f64 L = Some (int u)" and u63: "u \<le> 63" by auto
  have um: "f64_to_i32 (Some (int u)) = int u"
    using u63 by (simp add: f64_to_i32_def sat_i32_id)
  have sbcm: "f64_to_i32 (Some (int c)) = int c"
    using c18 by (simp add: f64_to_i32_def sat_i32_id)
  have sbc: "shl32 1 (int c) = 2 ^ c" using c18 by (simp add: shl32_one)
  have shc: "shr32 (2 ^ c) 1 = 2 ^ m" by (simp add: shr32_def cm)
  have shm: "sub32 (int c) 1 = int m" using c18 by (simp add: sub32_def to_i32_id cm)
  from init_fields [OF ini, unfolded cl ul um sbcm sbc shc shm]
  obtain B where loop: "bucketsLoop (shl64 (to_u64 (2 ^ c)) (int u)) H 1 = Some B"
    and f: "bucketCount h = B" "countsArrayLength h = mul32 (add32 B 1) (2 ^ m)"
      "subBucketCount h = 2 ^ c" "subBucketHalfCount h = 2 ^ m"
      "subBucketHalfCountMagnitude h = int m" "unitMagnitude h = int u"
    by blast
  have tu: "to_u64 (2 ^ c) = 2 ^ c"
  proof -
    have "(2::int) ^ c \<le> 2 ^ 18" using c18 by (intro power_increasing) simp_all
    then have "(2::int) ^ c mod 2 ^ 64 = 2 ^ c" by simp
    then show ?thesis by (simp add: to_u64_def nat_power_eq)
  qed
  have s0: "shl64 (2 ^ c) (int u) = (2 ^ (c + u)) mod 2 ^ 64"
    using u63 by (simp add: shl64_def power_add)
  have cu: "c + u \<le> 63"
  proof (rule ccontr)
    assume "\<not> c + u \<le> 63"
    then have "64 \<le> c + u" by simp
    then obtain d where "c + u = 64 + d" using le_Suc_ex by blast
    then have "(2::nat) ^ (c + u) mod 2 ^ 64 = 0" by (simp add: power_add)
    with loop show False by (simp add: tu s0 bucketsLoop_zero)
  qed
  then have "(2::nat) ^ (c + u) < 2 ^ 64" by (intro power_strict_increasing) simp_all
  then have s1: "shl64 (2 ^ c) (int u) = 2 ^ (c + u)" by (simp add: s0)
  from bucketsLoop_result_aux [OF loop [unfolded tu s1]] cu
  have B: "1 \<le> B \<and> int (c + u) + (B - 1) \<le> 64" by blast
  then have B1: "1 \<le> B" and B64: "B \<le> 64" using c1 by simp_all
  note len = length_for_buckets [OF B1 B64 m17]
  have "layout_invariant h"
    unfolding layout_invariant_def
    by (rule exI [of _ m], rule exI [of _ u]) (use f B m17 cm len in simp)
  then show ?thesis by (simp add: ul f)
qed

section \<open>Evaluation on numerals\<close>

lemmas machine_defs = U64_MAX_VALUE_def to_i32_def sat_i32_def add32_def sub32_def mul32_def
  to_u64_def shl32_def shr32_def shl64_def shr64_def add64_def sub64_def mul64_def not64_def

lemmas log_defs = floor_log2_f64_def ceil_log2_f64_def log2_rounds_up_def log2_rounds_down_def
  f64_to_i32_def pow10_u64_def to_f64_def floor_log2_eval

lemmas sizing_defs = getBucketsNeededToCoverValue_def getLengthForNumberOfBuckets_def
  determineArrayLengthNeeded_def establishSize_def then_do_def

lemma bucketsLoop_2_1000: "bucketsLoop 2 1000 1 = Some 10"
  by (simp add: bucketsLoop.simps machine_defs)

lemma replicate_11: "replicate 11 (0::nat) = [0, 0, 0, 0, 0, 0, 0, 0, 0, 0, 0]"
  by (simp add: numeral_eq_Suc)

lemma new_histogram64: "new_Histogram 64 1 1000 0 = Some (Inr histogram64)"
  apply (simp add: new_Histogram_def init_def Let_def)
  apply (simp add: log_defs machine_defs)
  apply (simp add: sizing_defs machine_defs bucketsLoop_2_1000 histogram64_def replicate_11)
  done

text \<open>
  The logarithm of \<open>2 ^ 49 - 1\<close> rounds to \<open>49\<close>, that of \<open>2 ^ 49 - 2\<close> does not.
\<close>

lemma floor_log2_f64_below_2_49:
  "floor_log2_f64 562949953421311 = Some 49"
  "floor_log2_f64 562949953421310 = Some 48"
  by (simp_all add: log_defs)

lemma valid_rounded: "\<not> (1125899906842624::nat) < mul64 2 562949953421311"
  by (simp add: mul64_def)

lemma smallest_untrackable_rounded: "shl64 (to_u64 2) 49 = 1125899906842624"
  by (simp add: machine_defs)

lemma bucketsLoop_rounded: "bucketsLoop 1125899906842624 1125899906842624 1 = Some 2"
  by (simp add: bucketsLoop.simps machine_defs)

lemma new_histogram_rounded:
  "new_Histogram 64 562949953421311 1125899906842624 0 = Some (Inr histogram_rounded)"
  apply (simp add: new_Histogram_def init_def Let_def)
  apply (simp add: floor_log2_f64_below_2_49 valid_rounded)
  apply (simp add: log_defs machine_defs)
  apply (simp add: sizing_defs valid_rounded smallest_untrackable_rounded bucketsLoop_rounded)
  apply (simp add: machine_defs histogram_rounded_def numeral_3_eq_3)
  done

section \<open>Index round trip\<close>

lemma and_mask_int: "(i::int) AND (2 ^ m - 1) = i mod 2 ^ m"
  by (simp flip: mask_eq_exp_minus_1 take_bit_eq_mask add: take_bit_eq_mod)

lemma floor_log2_pow_range:
  assumes "2 ^ m \<le> s" "s < 2 ^ Suc m"
  shows "floor_log2 (s * 2 ^ k) = m + k"
proof -
  have "0 < s" using assms(1) by (metis less_le_trans zero_less_numeral zero_less_power)
  then have "floor_log2 (s * 2 ^ k) = floor_log2 s + k" by (rule floor_log2_shift)
  moreover have "floor_log2 s = m" using assms by (rule floor_log2_unique)
  ultimately show ?thesis by simp
qed

lemma getBucketIndex_of_value:
  assumes shm: "subBucketHalfCountMagnitude h = int m" and um: "unitMagnitude h = int u"
    and m17: "m \<le> 17"
    and bound: "b + u + m < 64" and s_hi: "s < 2 ^ Suc m" and s_lo: "b = 0 \<or> 2 ^ m \<le> s"
  shows "getBucketIndex h (s * 2 ^ (b + u)) = int b"
proof (cases "s = 0")
  case True
  with s_lo have "b = 0" by auto
  with True show ?thesis by (simp add: getBucketIndex_def floor_log2_f64_def)
next
  case False
  then have pos: "0 < s" by simp
  note fl = floor_log2_f64_exact [OF pos s_hi m17, of "b + u"]
  show ?thesis
  proof (cases "2 ^ m \<le> s")
    case True
    have "floor_log2 s = m" using True s_hi by (rule floor_log2_unique)
    moreover have "sat_i32 (int b) = int b" using bound by (intro sat_i32_id) simp_all
    ultimately show ?thesis
      by (simp add: getBucketIndex_def fl shm um)
  next
    case False
    with s_lo have b0: "b = 0" by auto
    from False have slt: "s < 2 ^ m" by simp
    have mpos: "0 < m" using slt pos by (cases m) simp_all
    have "floor_log2 s < m" using slt mpos by (rule floor_log2_less)
    then have "int (floor_log2 s + u) - int m - int u < 0" by simp
    then have "max (int (floor_log2 s + u) - int m - int u) 0 = 0" by simp
    then show ?thesis
      using floor_log2_f64_exact [OF pos s_hi m17, of u]
      by (simp add: getBucketIndex_def shm um b0 sat_i32_def)
  qed
qed

lemma getSubBucketIndex_of_value:
  assumes um: "unitMagnitude h = int u" and m17: "m \<le> 17"
    and bound: "b + u + m < 64" and s_hi: "s < 2 ^ Suc m"
  shows "getSubBucketIndex h (s * 2 ^ (b + u)) (int b) = int s"
proof -
  have cnt: "nat ((int b + int u) mod 64) = b + u" using bound by simp
  have "(2::nat) ^ Suc m \<le> 2 ^ 18" using m17 by (intro power_increasing) simp_all
  with s_hi have "s < 2 ^ 18" by linarith
  then have "int s < 2 ^ 31" by simp
  then have "to_i32 (int s) = int s" by (intro to_i32_small) simp_all
  then show ?thesis by (simp add: getSubBucketIndex_def shr64_def um cnt)
qed

lemma countsArrayIndex_of_value:
  assumes shm: "subBucketHalfCountMagnitude h = int m" and um: "unitMagnitude h = int u"
    and m17: "m \<le> 17" and shc: "subBucketHalfCount h = 2 ^ m" and sbc: "subBucketCount h = 2 ^ Suc m"
    and bound: "b + u + m < 64" and s_hi: "s < 2 ^ Suc m" and s_lo: "b = 0 \<or> 2 ^ m \<le> s"
  shows "countsArrayIndex h (s * 2 ^ (b + u)) = Inr ((int b + 1) * 2 ^ m + int s - 2 ^ m)"
proof -
  note bi = getBucketIndex_of_value [OF shm um m17 bound s_hi s_lo]
  note si = getSubBucketIndex_of_value [OF um m17 bound s_hi]
  have one: "shl32 1 (int m) = 2 ^ m" using m17 by (simp add: shl32_one)
  have a1: "int s < 2 ^ Suc m" using s_hi by (metis of_nat_less_iff of_nat_numeral of_nat_power)
  have a2: "int b = 0 \<or> (2::int) ^ m \<le> int s"
    using s_lo by (metis of_nat_0 of_nat_le_iff of_nat_numeral of_nat_power)
  have p17: "(2::int) ^ m \<le> 2 ^ 17" using m17 by (intro power_increasing) simp_all
  have p0: "(0::int) < 2 ^ m" by simp
  have b63: "int b \<le> 63" using bound by simp
  have e1: "add32 (int b) 1 = int b + 1"
    unfolding add32_def by (rule to_i32_id) (use b63 in simp_all)
  have "(int b + 1) * 2 ^ m \<le> 64 * (2::int) ^ m" using b63 by (intro mult_right_mono) simp_all
  with p17 have base_hi: "(int b + 1) * 2 ^ m \<le> 64 * 2 ^ 17" by linarith
  have base_lo: "0 \<le> (int b + 1) * (2::int) ^ m" by simp
  have e2: "mul32 (int b + 1) (2 ^ m) = (int b + 1) * 2 ^ m"
  proof -
    from base_hi have "(int b + 1) * 2 ^ m < 2 ^ 31" by simp
    with base_lo show ?thesis unfolding mul32_def by (rule to_i32_small)
  qed
  have s18: "int s < 2 * 2 ^ 17" using a1 p17 by simp
  have e3: "sub32 (int s) (2 ^ m) = int s - 2 ^ m"
  proof -
    have lo: "- (2 ^ 31) \<le> int s - 2 ^ m" using p17 by simp
    have "int s - 2 ^ m \<le> int s" by simp
    also have "\<dots> < 2 * 2 ^ 17" by (rule s18)
    finally have hi: "int s - 2 ^ m < 2 ^ 31" by simp
    show ?thesis unfolding sub32_def by (rule to_i32_id [OF lo hi])
  qed
  have e4: "add32 ((int b + 1) * 2 ^ m) (int s - 2 ^ m) = (int b + 1) * 2 ^ m + int s - 2 ^ m"
  proof -
    define x where "x = (int b + 1) * 2 ^ m"
    define y where "y = int s - 2 ^ m"
    have x0: "0 \<le> x" and x1: "x \<le> 8388608" using base_lo base_hi by (simp_all add: x_def)
    have y0: "- 131072 \<le> y" using p17 by (simp add: y_def)
    have "y \<le> int s" by (simp add: y_def)
    also have "\<dots> < 2 * 2 ^ 17" by (rule s18)
    finally have y1: "y < 262144" by simp
    have "- 2147483648 \<le> x + y" using x0 y0 by linarith
    moreover have "x + y < 2147483648" using x1 y1 by linarith
    ultimately have "to_i32 (x + y) = x + y" by (simp add: to_i32_def)
    then show ?thesis by (simp add: add32_def x_def y_def)
  qed
  show ?thesis
    using a1 a2
    by (simp add: countsArrayIndex_def computeCountsArrayIndex_def Let_def bi si shm shc sbc one
        e1 e2 e3 e4)
qed

lemma valueFromIndex_decompose:
  assumes shm: "subBucketHalfCountMagnitude h = int m" and um: "unitMagnitude h = int u"
    and m17: "m \<le> 17" and shc: "subBucketHalfCount h = 2 ^ m"
    and B1: "1 \<le> B" and room: "int m + int u + B \<le> 64"
    and i0: "0 \<le> i" and iB: "i < (B + 1) * 2 ^ m"
  shows "\<exists>b s. valueFromIndex h i = s * 2 ^ (b + u) \<and> b + u + m < 64 \<and> s < 2 ^ Suc m
           \<and> (b = 0 \<or> 2 ^ m \<le> s) \<and> (int b + 1) * 2 ^ m + int s - 2 ^ m = i
           \<and> int b < B"
proof -
  define q where "q = i div 2 ^ m"
  define r where "r = i mod 2 ^ m"
  have r0: "0 \<le> r" and rm: "r < 2 ^ m" by (simp_all add: r_def)
  have q0: "0 \<le> q" using i0 by (simp add: q_def pos_imp_zdiv_nonneg_iff)
  have iqr: "i = q * 2 ^ m + r" unfolding q_def r_def by (rule div_mult_mod_eq [symmetric])
  have qB: "q < B + 1"
  proof -
    have "q * 2 ^ m \<le> i" using r0 by (simp add: iqr)
    with iB have "q * 2 ^ m < (B + 1) * 2 ^ m" by linarith
    then show ?thesis by (simp add: mult_less_cancel_right)
  qed
  have p17: "(2::int) ^ m \<le> 2 ^ 17" using m17 by (intro power_increasing) simp_all
  have p0: "(0::int) < 2 ^ m" by simp
  have B64: "B \<le> 64" using room by simp
  have q64: "q \<le> 64" using qB B64 by simp
  have shr: "shr32 i (int m) = q" using m17 by (simp add: shr32_def q_def)
  have e1: "sub32 q 1 = q - 1"
    unfolding sub32_def by (rule to_i32_id) (use q0 q64 in simp_all)
  have e2: "sub32 (2 ^ m) 1 = 2 ^ m - 1"
  proof -
    have "(0::int) \<le> 2 ^ m - 1" by simp
    moreover from p17 have "(2::int) ^ m - 1 < 2 ^ 31" by simp
    ultimately show ?thesis unfolding sub32_def by (rule to_i32_small)
  qed
  have andm: "i AND (2 ^ m - 1) = r" by (simp add: and_mask_int r_def)
  have e3: "add32 r (2 ^ m) = r + 2 ^ m"
    unfolding add32_def by (rule to_i32_id) (use r0 rm p17 in simp_all)
  have e4: "sub32 (r + 2 ^ m) (2 ^ m) = r"
  proof -
    have "to_i32 r = r" by (rule to_i32_id) (use r0 rm p17 in simp_all)
    then show ?thesis by (simp add: sub32_def)
  qed
  have rnat: "nat r < 2 ^ m" using rm r0 by (simp add: nat_less_iff)
  show ?thesis
  proof (cases "q = 0")
    case True
    have e10: "sub32 0 1 = - 1" by (simp add: sub32_def to_i32_def)
    have v: "valueFromIndex h i = shl64 (to_u64 r) (int u)"
      using True
      by (simp add: valueFromIndex_def Let_def shm shc shr e10 e2 andm e3 e4 valueFromIndexes_def um)
    have u63: "u + m < 64" using room B1 by simp
    have ru: "to_u64 r = nat r"
    proof -
      from rm p17 have "r < 2 ^ 64" by simp
      with r0 show ?thesis by (simp add: to_u64_def)
    qed
    have "nat r * 2 ^ u < 2 ^ m * 2 ^ u" using rnat by simp
    also have "\<dots> = 2 ^ (m + u)" by (simp add: power_add)
    also have "\<dots> \<le> (2::nat) ^ 64" using u63 by (intro power_increasing) simp_all
    finally have small: "nat r * 2 ^ u < 2 ^ 64" .
    have cnt: "nat (int u mod 64) = u" using u63 by simp
    have v2: "valueFromIndex h i = nat r * 2 ^ (0 + u)"
      using small by (simp add: v ru shl64_def cnt)
    have idx: "(int 0 + 1) * 2 ^ m + int (nat r) - 2 ^ m = i"
      using True r0 by (simp add: iqr)
    have "nat r < 2 ^ Suc m" by (rule less_le_trans [OF rnat]) simp
    with v2 idx u63 B1 show ?thesis
      by (intro exI [of _ 0] exI [of _ "nat r"]) simp
  next
    case False
    with q0 have q1: "1 \<le> q" by simp
    define b where "b = nat (q - 1)"
    define s where "s = nat (r + 2 ^ m)"
    have bq: "int b = q - 1" using q1 by (simp add: b_def)
    have si: "int s = r + 2 ^ m" using r0 by (simp add: s_def)
    have bB: "int b < B" using qB bq by simp
    have bound: "b + u + m < 64" using room bB by simp
    have s_lo: "2 ^ m \<le> s" using r0 by (simp add: s_def nat_le_iff)
    have s_hi: "s < 2 ^ Suc m" using rm r0 by (simp add: s_def nat_less_iff)
    have v: "valueFromIndex h i = shl64 (to_u64 (r + 2 ^ m)) (q - 1 + int u)"
      using q1
      by (simp add: valueFromIndex_def Let_def shm shc shr e1 e2 andm e3 valueFromIndexes_def um)
    have su: "to_u64 (r + 2 ^ m) = s"
    proof -
      from rm p17 have "r + 2 ^ m < 2 ^ 64" by simp
      with r0 show ?thesis by (simp add: to_u64_def s_def)
    qed
    have cnt: "nat ((q - 1 + int u) mod 64) = b + u"
    proof -
      have "q - 1 + int u = int (b + u)" using bq by simp
      moreover have "int (b + u) mod 64 = int (b + u)" using bound by simp
      ultimately show ?thesis by (metis nat_int)
    qed
    have "s * 2 ^ (b + u) < 2 ^ Suc m * 2 ^ (b + u)" using s_hi by simp
    also have "\<dots> = 2 ^ (Suc m + (b + u))" by (simp add: power_add)
    also have "\<dots> \<le> (2::nat) ^ 64" using bound by (intro power_increasing) simp_all
    finally have small: "s * 2 ^ (b + u) < 2 ^ 64" .
    have v2: "valueFromIndex h i = s * 2 ^ (b + u)"
      using small by (simp add: v su shl64_def cnt)
    have idx: "(int b + 1) * 2 ^ m + int s - 2 ^ m = i"
      by (simp add: bq si iqr)
    from v2 bound s_hi s_lo idx bB show ?thesis
      by (intro exI [of _ b] exI [of _ s]) simp
  qed
qed

lemma layout_round_trip:
  assumes "layout_invariant h" "0 \<le> i" "i < countsArrayLength h"
  shows "countsArrayIndex h (valueFromIndex h i) = Inr i"
proof -
  from assms(1) obtain m u where
    shm: "subBucketHalfCountMagnitude h = int m" and um: "unitMagnitude h = int u"
    and m17: "m \<le> 17" and shc: "subBucketHalfCount h = 2 ^ m"
    and sbc: "subBucketCount h = 2 ^ Suc m" and B1: "1 \<le> bucketCount h"
    and len: "countsArrayLength h = (bucketCount h + 1) * 2 ^ m"
    and room: "int m + int u + bucketCount h \<le> 64"
    unfolding layout_invariant_def by blast
  from assms(3) have iB: "i < (bucketCount h + 1) * 2 ^ m" by (simp add: len)
  from valueFromIndex_decompose [OF shm um m17 shc B1 room assms(2) iB]
  obtain b s where v: "valueFromIndex h i = s * 2 ^ (b + u)" and bound: "b + u + m < 64"
    and s_hi: "s < 2 ^ Suc m" and s_lo: "b = 0 \<or> 2 ^ m \<le> s"
    and idx: "(int b + 1) * 2 ^ m + int s - 2 ^ m = i"
    by blast
  from countsArrayIndex_of_value [OF shm um m17 shc sbc bound s_hi s_lo]
  show ?thesis by (simp add: v idx)
qed

text \<open>
  C1. For a histogram constructed from a valid configuration (\<open>1 \<le> L\<close>, which the
  constructor checks, \<open>2 * L \<le> H\<close> within \<open>u64\<close>, at most 5 digits) and every index \<open>i\<close>
  of its counts array, \<open>countsArrayIndex (valueFromIndex i) = i\<close>.
\<close>

theorem index_round_trip:
  assumes "2 * L \<le> H" and "H < 2 ^ 64"
    and "new_Histogram bits L H D = Some (Inr h)"
    and "0 \<le> i" and "i < countsArrayLength h"
  shows "countsArrayIndex h (valueFromIndex h i) = Inr i"
  using layout_round_trip [OF new_Histogram_layout [OF assms(1-3), THEN conjunct1] assms(4,5)] .

theorem index_round_trip_witness:
  "2 * (1::nat) \<le> 1000 \<and> (1000::nat) < 2 ^ 64
     \<and> new_Histogram 64 1 1000 0 = Some (Inr histogram64)
     \<and> (0::int) \<le> 7 \<and> 7 < countsArrayLength histogram64
     \<and> countsArrayIndex histogram64 (valueFromIndex histogram64 7) = Inr 7
     \<and> 2 * (562949953421311::nat) \<le> 1125899906842624 \<and> (1125899906842624::nat) < 2 ^ 64
     \<and> new_Histogram 64 562949953421311 1125899906842624 0 = Some (Inr histogram_rounded)
     \<and> unitMagnitude histogram_rounded = 49
     \<and> (0::int) \<le> 2 \<and> 2 < countsArrayLength histogram_rounded
     \<and> countsArrayIndex histogram_rounded (valueFromIndex histogram_rounded 2) = Inr 2"
proof -
  have len: "7 < countsArrayLength histogram64" by (simp add: histogram64_def)
  from index_round_trip [OF _ _ new_histogram64 _ len]
  have a: "countsArrayIndex histogram64 (valueFromIndex histogram64 7) = Inr 7" by simp
  have len2: "2 < countsArrayLength histogram_rounded" by (simp add: histogram_rounded_def)
  have um: "unitMagnitude histogram_rounded = 49" by (simp add: histogram_rounded_def)
  from index_round_trip [OF _ _ new_histogram_rounded _ len2]
  have b: "countsArrayIndex histogram_rounded (valueFromIndex histogram_rounded 2) = Inr 2"
    by simp
  from new_histogram64 len a new_histogram_rounded len2 um b show ?thesis by simp
qed

section \<open>When the constructor returns\<close>

text \<open>
  The constructor returns a histogram on every valid configuration whose
  \<open>subBucketCount << unitMagnitude\<close> fits in 64 bits.
\<close>

lemma bucketsLoop_returns:
  assumes "k \<le> 63"
  shows "\<exists>y. bucketsLoop (2 ^ k) v n = Some y"
  using assms
proof (induction "63 - k" arbitrary: k n)
  case 0
  then have k: "k = 63" by simp
  have "shr64 U64_MAX_VALUE 1 < 2 ^ 63" by (simp add: shr64_def U64_MAX_VALUE_def)
  then show ?case
    by (subst bucketsLoop.simps) (simp add: k)
next
  case (Suc d)
  then have k62: "k \<le> 62" by simp
  have "(2::nat) ^ k \<le> 2 ^ 62" using k62 by (intro power_increasing) simp_all
  then have small: "\<not> (2::nat) ^ k > shr64 U64_MAX_VALUE 1"
    by (simp add: shr64_def U64_MAX_VALUE_def)
  have "(2::nat) ^ k * 2 \<le> 2 ^ 62 * 2" using \<open>(2::nat) ^ k \<le> 2 ^ 62\<close> by simp
  then have sh: "shl64 (2 ^ k) 1 = 2 ^ Suc k" by (simp add: shl64_def)
  have d: "d = 63 - Suc k" using Suc.hyps(2) by simp
  have "Suc k \<le> 63" using k62 by simp
  from Suc.hyps(1) [OF d this, of "n + 1"]
  obtain y where y: "bucketsLoop (2 ^ Suc k) v (n + 1) = Some y" by blast
  show ?case
  proof (cases "2 ^ k \<le> v")
    case True
    then show ?thesis
      using small by (subst bucketsLoop.simps) (simp only: sh y if_True if_False, simp)
  next
    case False
    then show ?thesis by (subst bucketsLoop.simps) simp
  qed
qed

lemma new_Histogram_returns:
  assumes L1: "1 \<le> L" and valid: "2 * L \<le> H" "H < 2 ^ 64" and D5: "D \<le> 5"
    and cl: "ceil_log2_f64 (mul64 2 (pow10_u64 D)) = Some (int c)"
    and ul: "floor_log2_f64 L = Some (int u)"
    and room: "c + u \<le> 63"
  shows "\<exists>h. new_Histogram bits L H D = Some (Inr h)"
proof -
  from sub_bucket_magnitude_cases [OF D5] cl
  have c1: "1 \<le> c" and c18: "c \<le> 18" by auto
  from room have cu: "c + u \<le> 63" .
  then have u63: "u \<le> 63" by simp
  have um: "f64_to_i32 (Some (int u)) = int u"
    using u63 by (simp add: f64_to_i32_def sat_i32_id)
  have sbcm: "f64_to_i32 (Some (int c)) = int c"
    using c18 by (simp add: f64_to_i32_def sat_i32_id)
  have sbc: "shl32 1 (int c) = 2 ^ c" using c18 by (simp add: shl32_one)
  have tu: "to_u64 (2 ^ c) = 2 ^ c"
  proof -
    have "(2::int) ^ c \<le> 2 ^ 18" using c18 by (intro power_increasing) simp_all
    then have "(2::int) ^ c mod 2 ^ 64 = 2 ^ c" by simp
    then show ?thesis by (simp add: to_u64_def nat_power_eq)
  qed
  have "(2::nat) ^ (c + u) < 2 ^ 64" using cu by (intro power_strict_increasing) simp_all
  then have s1: "shl64 (2 ^ c) (int u) = 2 ^ (c + u)"
    using u63 by (simp add: shl64_def power_add)
  from bucketsLoop_returns [OF cu, of H 1]
  obtain B where B: "bucketsLoop (2 ^ (c + u)) H 1 = Some B" by blast
  from bucketsLoop_result_aux [OF B] cu
  have "1 \<le> B \<and> int (c + u) + (B - 1) \<le> 64" by blast
  then have B1: "1 \<le> B" and B64: "B \<le> 64" using c1 by simp_all
  define m where "m = c - 1"
  have cm: "c = Suc m" using c1 by (simp add: m_def)
  have m17: "m \<le> 17" using c18 by (simp add: m_def)
  have shc: "shr32 (2 ^ c) 1 = 2 ^ m" by (simp add: shr32_def cm)
  have "0 \<le> (B + 1) * (2::int) ^ m" using B1 by simp
  then have len: "\<not> mul32 (add32 B 1) (2 ^ m) < 0"
    by (simp add: length_for_buckets [OF B1 B64 m17])
  have L2: "\<not> H < mul64 2 L" using valid by (simp add: mul64_def)
  have "\<exists>h. init bits L H D = Some (Done h)"
    unfolding init_def Let_def cl ul um sbcm sbc
    by (simp add: establishSize_def determineArrayLengthNeeded_def
        getBucketsNeededToCoverValue_def getLengthForNumberOfBuckets_def then_do_def tu s1 B L2
        shc len)
  then obtain h where "init bits L H D = Some (Done h)" by blast
  then show ?thesis
    using L1 L2 D5 by (simp add: new_Histogram_def)
qed

text \<open>
  Outside that bound the sizing loop starts from \<open>0\<close> and never ends:
  \<open>new Histogram64(2 ^ 60, 2 ^ 62, 3)\<close> does not return.
\<close>

lemma new_Histogram_hangs:
  "new_Histogram 64 1152921504606846976 4611686018427387904 3 = None"
  apply (simp add: new_Histogram_def init_def Let_def)
  apply (simp add: log_defs machine_defs)
  apply (simp add: sizing_defs machine_defs bucketsLoop_zero)
  done

text \<open>
  The mask of a constructed histogram has the lowest \<open>unitMagnitude\<close> bits set, also from
  bit 31 on.
\<close>

lemma sub_one_mod:
  fixes p N :: nat
  assumes "1 \<le> p" "p < N"
  shows "(p + (N - 1)) mod N = p - 1"
proof -
  have "p + (N - 1) = (p - 1) + N" using assms by linarith
  then have "(p + (N - 1)) mod N = ((p - 1) + N) mod N" by (rule arg_cong)
  also have "\<dots> = (p - 1) mod N" by (rule mod_add_self2)
  also have "\<dots> = p - 1" using assms by (intro mod_less) linarith
  finally show ?thesis .
qed

lemma new_Histogram_mask:
  assumes valid: "2 * L \<le> H" "H < 2 ^ 64"
    and new: "new_Histogram bits L H D = Some (Inr h)"
  shows "unitMagnitudeMask h = 2 ^ nat (unitMagnitude h) - 1"
proof -
  from new have L1: "1 \<le> L"
    by (auto simp: new_Histogram_def split: if_splits)
  from new have ini: "init bits L H D = Some (Done h)"
    by (auto simp: new_Histogram_def split: if_splits option.splits step.splits)
  from valid have "L < 2 ^ 63" by simp
  with L1 floor_log2_f64_range [of L 63]
  obtain u where ul: "floor_log2_f64 L = Some (int u)" and u63: "u \<le> 63" by auto
  have um: "f64_to_i32 (Some (int u)) = int u"
    using u63 by (simp add: f64_to_i32_def sat_i32_id)
  from init_fields [OF ini, unfolded ul um]
  have f: "unitMagnitude h = int u" "unitMagnitudeMask h = sub64 (shl64 1 (int u)) 1"
    by blast+
  have "(2::nat) ^ u \<le> 2 ^ 63" using u63 by (intro power_increasing) simp_all
  then have lt: "(2::nat) ^ u < 2 ^ 64" by simp
  then have sh: "shl64 1 (int u) = 2 ^ u" using u63 by (simp add: shl64_def)
  have m: "sub64 (2 ^ u) 1 = 2 ^ u - 1"
    unfolding sub64_def using sub_one_mod [of "2 ^ u" "2 ^ 64"] lt by simp
  show ?thesis unfolding f sh m by simp
qed

text \<open>
  \<open>new Histogram64(2 ^ 32, 2 ^ 33, 0)\<close> has the mask \<open>2 ^ 32 - 1\<close>.
\<close>

lemma mask_of_unit_2_32:
  "\<exists>h. new_Histogram 64 4294967296 8589934592 0 = Some (Inr h)
     \<and> unitMagnitude h = 32 \<and> unitMagnitudeMask h = 4294967295"
proof -
  have u: "floor_log2_f64 4294967296 = Some (int 32)" by (simp add: log_defs)
  have c: "ceil_log2_f64 (mul64 2 (pow10_u64 0)) = Some (int 1)"
    by (simp add: log_defs mul64_def)
  from new_Histogram_returns [OF _ _ _ _ c u, of 8589934592 64]
  obtain h where h: "new_Histogram 64 4294967296 8589934592 0 = Some (Inr h)" by auto
  from new_Histogram_layout [OF _ _ h] have um: "unitMagnitude h = 32" by (simp add: u)
  from new_Histogram_mask [OF _ _ h]
  have "unitMagnitudeMask h = 2 ^ nat (unitMagnitude h) - 1" by simp
  then have "unitMagnitudeMask h = 4294967295" by (simp add: um)
  with h um show ?thesis by blast
qed

section \<open>A failed recording leaves the histogram as it was\<close>

lemma countsArrayIndex_histogram64_2000: "countsArrayIndex histogram64 2000 = Inr 11"
proof -
  have bi: "getBucketIndex histogram64 2000 = 10"
    by (simp add: getBucketIndex_def floor_log2_f64_def log2_rounds_up_def to_f64_def
        floor_log2_eval histogram64_def sat_i32_def)
  have si: "getSubBucketIndex histogram64 2000 10 = 1"
    by (simp add: getSubBucketIndex_def histogram64_def machine_defs)
  show ?thesis
    by (simp add: countsArrayIndex_def bi si)
      (simp add: computeCountsArrayIndex_def histogram64_def machine_defs)
qed

text \<open>
  C10. When the index of \<open>v\<close> lies at or beyond \<open>countsArrayLength\<close> and \<open>autoResize\<close> is off,
  \<open>recordValue v\<close> throws in the very state it was called in: counters, \<open>totalCount\<close>,
  \<open>maxValue\<close> and \<open>minNonZeroValue\<close> are those from before the call.
\<close>

theorem recordValue_out_of_range_atomic:
  assumes "countsArrayIndex h v = Inr i" and "countsArrayLength h \<le> i" and "\<not> autoResize h"
  shows "recordValue v h = Some (Thrown OutOfRange h)"
  using assms
  by (simp add: recordValue_def recordSingleValue_def handleRecordException_def then_do_def)

theorem recordValue_out_of_range_atomic_witness:
  "countsArrayIndex histogram64 2000 = Inr 11 \<and> countsArrayLength histogram64 \<le> 11
     \<and> \<not> autoResize histogram64
     \<and> recordValue 2000 histogram64 = Some (Thrown OutOfRange histogram64)"
proof -
  have len: "countsArrayLength histogram64 \<le> 11" by (simp add: histogram64_def)
  have ar: "\<not> autoResize histogram64" by (simp add: histogram64_def)
  from recordValue_out_of_range_atomic [OF countsArrayIndex_histogram64_2000 len ar]
    countsArrayIndex_histogram64_2000 len ar
  show ?thesis by simp
qed

section \<open>The example histograms are what the constructor builds\<close>

lemma bucketsLoop_2_2: "bucketsLoop 2 2 1 = Some 2"
  by (simp add: bucketsLoop.simps machine_defs)

lemma new_histogram8: "new_Histogram 8 1 2 0 = Some (Inr histogram8)"
  apply (simp add: new_Histogram_def init_def Let_def)
  apply (simp add: log_defs machine_defs)
  apply (simp add: sizing_defs machine_defs bucketsLoop_2_2 histogram8_def numeral_3_eq_3)
  done

lemma bucketsLoop_8_8: "bucketsLoop 8 8 1 = Some 2"
  by (simp add: bucketsLoop.simps machine_defs)

lemma new_histogram_unit4: "new_Histogram 64 4 8 0 = Some (Inr histogram_unit4)"
  apply (simp add: new_Histogram_def init_def Let_def)
  apply (simp add: log_defs machine_defs)
  apply (simp add: sizing_defs machine_defs bucketsLoop_8_8 histogram_unit4_def numeral_3_eq_3)
  done

lemma bucketsLoop_4_4: "bucketsLoop 4 4 1 = Some 2"
  by (simp add: bucketsLoop.simps machine_defs)

lemma new_histogram_unit2: "new_Histogram 64 2 4 0 = Some (Inr histogram_unit2)"
  apply (simp add: new_Histogram_def init_def Let_def)
  apply (simp add: log_defs machine_defs)
  apply (simp add: sizing_defs machine_defs bucketsLoop_4_4 histogram_unit2_def numeral_3_eq_3)
  done

lemma bucketsLoop_wide: "bucketsLoop 2048 1152921504606846976 1 = Some 51"
  by (simp add: bucketsLoop.simps machine_defs)

lemma new_histogram_wide:
  "new_Histogram 64 1 1152921504606846976 3 = Some (Inr histogram_wide)"
  apply (simp add: new_Histogram_def init_def Let_def)
  apply (simp add: log_defs machine_defs)
  apply (simp add: sizing_defs machine_defs bucketsLoop_wide histogram_wide_def)
  done

section \<open>Recording on the examples\<close>

lemmas index_defs = countsArrayIndex_def computeCountsArrayIndex_def getBucketIndex_def
  getSubBucketIndex_def floor_log2_f64_def log2_rounds_up_def to_f64_def floor_log2_eval

lemmas value_defs = valueFromIndex_def valueFromIndexes_def lowestEquivalentValue_def
  highestEquivalentValue_def nextNonEquivalentValue_def sizeOfEquivalentValueRange_def

lemmas counter_defs = in_array_def getCountAtIndex_def incrementCountAtIndex_def
  addToCountAtIndex_def incrementTotalCount_def updateMinAndMax_def updatedMaxValue_def
  updateMinNonZeroValue_def

lemma index_histogram8_2:
  "countsArrayIndex (histogram8\<lparr>maxValue := a, minNonZeroValue := b, counts := c, totalCount := d\<rparr>) 2 = Inr 2"
  by (simp add: index_defs histogram8_def machine_defs Let_def)

lemma index_histogram8_2' : "countsArrayIndex histogram8 2 = Inr 2"
  by (simp add: index_defs histogram8_def machine_defs Let_def)

lemma record_256: 
  "recordCountAtValue 256 2 histogram8 =
     Some (Done (histogram8\<lparr>maxValue := 2, minNonZeroValue := 2, counts := [0, 0, 0], totalCount := 256\<rparr>))"
  apply (simp add: recordCountAtValue_def index_histogram8_2' then_do_def)
  apply (simp add: counter_defs histogram8_def machine_defs Let_def)
  done

lemma record_again:
  "recordValue 2 (histogram8\<lparr>maxValue := 2, minNonZeroValue := 2, counts := [0, 0, 0], totalCount := 256\<rparr>) =
     Some (Done (histogram8\<lparr>maxValue := 2, minNonZeroValue := 2, counts := [0, 0, 1], totalCount := 257\<rparr>))"
  apply (simp add: recordValue_def recordSingleValue_def index_histogram8_2 then_do_def)
  apply (simp add: counter_defs histogram8_def machine_defs Let_def)
  done

section \<open>Percentiles\<close>

subsection \<open>Rounding\<close>

lemma pow2_pos: "0 < pow2 k"
  by (simp add: pow2_def)

lemma spacing_pos: "0 < spacing x"
  by (simp add: spacing_def pow2_pos)

lemma round_f64_nonpos:
  assumes "x \<le> 0"
  shows "round_f64 x \<le> 0"
proof -
  define q where "q = spacing x"
  define n where "n = x / q"
  define r where "r = \<lfloor>n\<rfloor>"
  define d where "d = n - of_int r"
  have q0: "0 < q" unfolding q_def by (rule spacing_pos)
  have n0: "n \<le> 0" using assms q0 by (simp add: n_def divide_nonpos_pos)
  have rn: "of_int r \<le> n" unfolding r_def by (rule of_int_floor_le)
  then have r0: "r \<le> 0" using n0 by (metis floor_mono floor_zero r_def)
  have val: "round_f64 x =
      (if d < 1 / 2 \<or> (d = 1 / 2 \<and> even r) then of_int r else of_int (r + 1)) * q"
    by (simp add: round_f64_def Let_def q_def n_def r_def d_def)
  show ?thesis
  proof (cases "d < 1 / 2 \<or> (d = 1 / 2 \<and> even r)")
    case True
    have "(of_int r :: rat) \<le> 0" using r0 by simp
    then have "of_int r * q \<le> 0" using q0 by (simp add: mult_le_0_iff)
    with True show ?thesis by (simp add: val)
  next
    case False
    then have "1 / 2 \<le> d" by auto
    then have "of_int r < n" by (simp add: d_def)
    with n0 have "(of_int r :: rat) < 0" by linarith
    then have "r < 0" by simp
    then have "(of_int (r + 1) :: rat) \<le> 0" by simp
    then have le: "of_int (r + 1) * q \<le> 0" using q0 by (simp add: mult_le_0_iff)
    have sel: "(if d < 1 / 2 \<or> (d = 1 / 2 \<and> even r) then of_int r else of_int (r + 1))
        = (of_int (r + 1) :: rat)"
      using False by (rule if_not_P)
    show ?thesis using le by (simp only: val sel)
  qed
qed

lemma countAtPercentile_nonpos:
  assumes "p \<le> 0"
  shows "countAtPercentile h p = 1"
proof -
  define fp where "fp = f64_mul (f64_div (min p 100) 100) (of_nat (to_f64 (totalCount h)))"
  have "min p 100 / 100 \<le> 0" using assms by simp
  then have "f64_div (min p 100) 100 \<le> 0" unfolding f64_div_def by (rule round_f64_nonpos)
  then have "f64_div (min p 100) 100 * of_nat (to_f64 (totalCount h)) \<le> 0"
    by (simp add: mult_nonpos_nonneg)
  then have "fp \<le> 0" unfolding fp_def f64_mul_def by (rule round_f64_nonpos)
  with spacing_pos [of fp] have "fp - ulp fp \<le> 0" by (simp add: ulp_def)
  then have "f64_sub fp (ulp fp) \<le> 0" unfolding f64_sub_def by (rule round_f64_nonpos)
  then have "\<lceil>f64_sub fp (ulp fp)\<rceil> \<le> 0" by (simp add: ceiling_le_zero)
  then have "(of_int \<lceil>f64_sub fp (ulp fp)\<rceil> :: rat) \<le> 0" by simp
  then have m: "max (of_int \<lceil>f64_sub fp (ulp fp)\<rceil> :: rat) 1 = 1" by (simp add: max_def)
  have "countAtPercentile h p = f64_to_u64 (max (of_int \<lceil>f64_sub fp (ulp fp)\<rceil>) 1)"
    unfolding countAtPercentile_def Let_def fp_def by (rule refl)
  also have "\<dots> = f64_to_u64 1" by (simp only: m)
  also have "\<dots> = 1" by (simp add: f64_to_u64_def)
  finally show ?thesis .
qed

subsection \<open>Evaluation\<close>

lemma floor_rat_numeral: "\<lfloor>numeral a / numeral b :: rat\<rfloor> = numeral a div numeral b"
  using floor_divide_of_int_eq [of "numeral a" "numeral b", where ?'a = rat] by simp

lemma ceiling_rat_numeral: "\<lceil>numeral a / numeral b :: rat\<rceil> = - (- numeral a div numeral b)"
  using ceiling_divide_eq_div [of "numeral a" "numeral b", where ?'a = rat] by simp

lemmas f64_defs = f64_div_def f64_mul_def f64_sub_def round_f64_def ulp_def spacing_def
  exponent_def pow2_def ceil_log2_def floor_log2_eval Let_def floor_rat_numeral
  ceiling_rat_numeral


lemma exact_above_50:
  "\<lceil>(3518437208883201 / 70368744177664 / 100) * 10
      - ulp ((3518437208883201 / 70368744177664 / 100) * 10 :: rat)\<rceil> = 6"
  by (simp add: f64_defs)


subsection \<open>The scan\<close>

lemma sum_list_take_le: "sum_list (take k (cs::nat list)) \<le> sum_list cs"
proof -
  have "sum_list cs = sum_list (take k cs) + sum_list (drop k cs)"
    by (metis append_take_drop_id sum_list_append)
  then show ?thesis by simp
qed

lemma sum_list_take_Suc:
  "i < length (cs::nat list) \<Longrightarrow> sum_list (take (Suc i) cs) = sum_list (take i cs) + cs ! i"
  by (simp add: take_Suc_conv_app_nth)

lemma percentileScan_step:
  assumes len: "countsArrayLength h = int (length (counts h))"
    and small: "sum_list (counts h) < 2 ^ 64"
    and i: "i < length (counts h)"
  shows "percentileScan h p t (int i) (sum_list (take i (counts h))) =
     (if t \<le> sum_list (take (Suc i) (counts h))
      then Inr (if p = 0 then lowestEquivalentValue h (valueFromIndex h (int i))
                else highestEquivalentValue h (valueFromIndex h (int i)))
      else percentileScan h p t (int (Suc i)) (sum_list (take (Suc i) (counts h))))"
proof -
  have g: "getCountAtIndex h (int i) = Inr (counts h ! i)"
    using i by (simp add: getCountAtIndex_def in_array_def)
  have "sum_list (take (Suc i) (counts h)) < 2 ^ 64"
    using sum_list_take_le [of "Suc i" "counts h"] small by linarith
  then have a: "add64 (sum_list (take i (counts h))) (counts h ! i) = sum_list (take (Suc i) (counts h))"
    using i by (simp add: add64_def sum_list_take_Suc)
  have lt: "int i < countsArrayLength h" using i len by simp
  have s: "int i + 1 = int (Suc i)" by simp
  show ?thesis
    by (subst percentileScan.simps) (simp only: lt g a s if_True sum.case Let_def)
qed

lemma percentileScan_skip:
  assumes len: "countsArrayLength h = int (length (counts h))"
    and small: "sum_list (counts h) < 2 ^ 64"
    and below: "\<forall>j. i \<le> j \<and> j < k \<longrightarrow> sum_list (take (Suc j) (counts h)) < t"
    and ik: "i \<le> k" and kn: "k \<le> length (counts h)"
  shows "percentileScan h p t (int i) (sum_list (take i (counts h))) =
         percentileScan h p t (int k) (sum_list (take k (counts h)))"
  using below ik
proof (induction "k - i" arbitrary: i)
  case 0
  then show ?case by simp
next
  case (Suc d)
  then have i_lt: "i < k" by simp
  with kn have i_len: "i < length (counts h)" by simp
  from Suc.prems(1) i_lt have "sum_list (take (Suc i) (counts h)) < t" by simp
  then have nt: "\<not> t \<le> sum_list (take (Suc i) (counts h))" by simp
  have st: "percentileScan h p t (int i) (sum_list (take i (counts h))) =
      percentileScan h p t (int (Suc i)) (sum_list (take (Suc i) (counts h)))"
    by (simp only: percentileScan_step [OF len small i_len] nt if_False)
  have d: "d = k - Suc i" using Suc.hyps(2) by simp
  have b': "\<forall>j. Suc i \<le> j \<and> j < k \<longrightarrow> sum_list (take (Suc j) (counts h)) < t"
    using Suc.prems(1) by simp
  have "Suc i \<le> k" using i_lt by simp
  from Suc.hyps(1) [OF d b' this] st show ?case by simp
qed

lemma getValueAtPercentile_found:
  assumes len: "countsArrayLength h = int (length (counts h))"
    and small: "sum_list (counts h) < 2 ^ 64"
    and i: "i < length (counts h)"
    and reach: "countAtPercentile h p \<le> sum_list (take (Suc i) (counts h))"
    and first: "\<forall>j<i. sum_list (take (Suc j) (counts h)) < countAtPercentile h p"
  shows "getValueAtPercentile h p =
     Inr (if p = 0 then lowestEquivalentValue h (valueFromIndex h (int i))
          else highestEquivalentValue h (valueFromIndex h (int i)))"
proof -
  have b: "\<forall>j. 0 \<le> j \<and> j < i \<longrightarrow> sum_list (take (Suc j) (counts h)) < countAtPercentile h p"
    using first by simp
  have il: "i \<le> length (counts h)" using i by simp
  from percentileScan_skip [OF len small b _ il, of p]
  have "getValueAtPercentile h p =
      percentileScan h p (countAtPercentile h p) (int i) (sum_list (take i (counts h)))"
    by (simp add: getValueAtPercentile_def)
  also have "\<dots> = Inr (if p = 0 then lowestEquivalentValue h (valueFromIndex h (int i))
          else highestEquivalentValue h (valueFromIndex h (int i)))"
    by (simp only: percentileScan_step [OF len small i] reach if_True)
  finally show ?thesis .
qed

lemma getValueAtPercentile_none:
  assumes len: "countsArrayLength h = int (length (counts h))"
    and small: "sum_list (counts h) < 2 ^ 64"
    and none: "\<forall>j<length (counts h). sum_list (take (Suc j) (counts h)) < countAtPercentile h p"
  shows "getValueAtPercentile h p = Inr 0"
proof -
  have b: "\<forall>j. 0 \<le> j \<and> j < length (counts h) \<longrightarrow>
      sum_list (take (Suc j) (counts h)) < countAtPercentile h p"
    using none by simp
  from percentileScan_skip [OF len small b, of p]
  have "getValueAtPercentile h p =
      percentileScan h p (countAtPercentile h p) (int (length (counts h)))
        (sum_list (take (length (counts h)) (counts h)))"
    by (simp add: getValueAtPercentile_def)
  also have "\<dots> = Inr 0"
    by (subst percentileScan.simps) (simp add: len)
  finally show ?thesis .
qed

lemma index_histogram64_100: "countsArrayIndex histogram64 100 = Inr 7"
  by (simp add: index_defs histogram64_def machine_defs Let_def)

lemma recordValue_100: "recordValue 100 histogram64 = Some (Done recorded_100)"
  apply (simp add: recordValue_def recordSingleValue_def index_histogram64_100 then_do_def)
  apply (simp add: counter_defs histogram64_def recorded_100_def machine_defs Let_def)
  done

lemma sum_list_take_mono:
  assumes "a \<le> b"
  shows "sum_list (take a (cs::nat list)) \<le> sum_list (take b cs)"
proof -
  have "take a cs = take a (take b cs)" using assms by (simp add: min_def)
  then show ?thesis by (metis sum_list_take_le)
qed

lemma first_reaching_index:
  assumes "sum_list (take i (cs::nat list)) < t"
  shows "\<forall>j<i. sum_list (take (Suc j) cs) < t"
proof (intro allI impI)
  fix j assume "j < i"
  then have "Suc j \<le> i" by simp
  from sum_list_take_mono [OF this, of cs] assms show "sum_list (take (Suc j) cs) < t"
    by linarith
qed




lemma index_histogram64_2: "countsArrayIndex histogram64 2 = Inr 2"
  by (simp add: index_defs histogram64_def machine_defs Let_def)

lemma record_5_at_2:
  "recordCountAtValue 5 2 histogram64 =
     Some (Done (histogram64\<lparr>maxValue := 2, minNonZeroValue := 2,
       counts := [0, 0, 5, 0, 0, 0, 0, 0, 0, 0, 0], totalCount := 5\<rparr>))"
  apply (simp add: recordCountAtValue_def index_histogram64_2 then_do_def)
  apply (simp add: counter_defs histogram64_def machine_defs Let_def)
  done

lemma index_histogram64_100':
  "countsArrayIndex (histogram64\<lparr>maxValue := a, minNonZeroValue := b, counts := c,
     totalCount := d\<rparr>) 100 = Inr 7"
  by (simp add: index_defs histogram64_def machine_defs Let_def)

lemma record_5_at_100:
  "recordCountAtValue 5 100 (histogram64\<lparr>maxValue := 2, minNonZeroValue := 2,
       counts := [0, 0, 5, 0, 0, 0, 0, 0, 0, 0, 0], totalCount := 5\<rparr>) =
     Some (Done recorded_mixed)"
  apply (simp add: recordCountAtValue_def index_histogram64_100' then_do_def)
  apply (simp add: counter_defs histogram64_def recorded_mixed_def machine_defs Let_def)
  done






lemma index_unit4_2: "countsArrayIndex histogram_unit4 2 = Inr 0"
  by (simp add: index_defs histogram_unit4_def machine_defs Let_def)

lemma recordValue_2_unit4: "recordValue 2 histogram_unit4 = Some (Done recorded_2)"
  apply (simp add: recordValue_def recordSingleValue_def index_unit4_2 then_do_def)
  apply (simp add: counter_defs histogram_unit4_def recorded_2_def machine_defs Let_def)
  done

lemma index_8_2:
  "countsArrayIndex (histogram8\<lparr>maxValue := a, minNonZeroValue := b, counts := c, totalCount := d\<rparr>) 2
     = Inr 2"
  by (simp add: index_defs histogram8_def machine_defs Let_def)

lemma index_8_2_fresh: "countsArrayIndex histogram8 2 = Inr 2"
  by (simp add: index_defs histogram8_def machine_defs Let_def)

lemma record_255: "recordCountAtValue 255 2 histogram8 = Some (Done full8)"
  apply (simp add: recordCountAtValue_def index_8_2_fresh then_do_def)
  apply (simp add: counter_defs histogram8_def full8_def machine_defs Let_def)
  done

lemma record_wrap: "recordValue 2 full8 = Some (Done wrapped8)"
  apply (simp add: recordValue_def recordSingleValue_def full8_def index_8_2 then_do_def)
  apply (simp add: counter_defs histogram8_def wrapped8_def machine_defs Let_def)
  done

lemma record_wrap_again: "recordValue 2 wrapped8 = Some (Done wrapped8_again)"
  apply (simp add: recordValue_def recordSingleValue_def wrapped8_def index_8_2 then_do_def)
  apply (simp add: counter_defs histogram8_def wrapped8_again_def machine_defs Let_def)
  done

lemma increment_full8: "incrementCountAtIndex 2 full8 = Done (full8\<lparr>counts := [0, 0, 0]\<rparr>)"
  by (simp add: counter_defs full8_def histogram8_def)

lemma add_full8: "addToCountAtIndex 2 1 full8 = Done (full8\<lparr>counts := [0, 0, 0]\<rparr>)"
  by (simp add: counter_defs full8_def histogram8_def machine_defs)

section \<open>Counter overflow\<close>

text \<open>
  \<open>newCount\<close> is unsigned in both functions, so the branch that throws is never taken.
\<close>

lemma overflow_check_is_dead:
  "incrementCountAtIndex i h \<noteq> Thrown CounterOverflow h'"
  "addToCountAtIndex i v h \<noteq> Thrown CounterOverflow h'"
  by (simp_all add: incrementCountAtIndex_def addToCountAtIndex_def Let_def)

text \<open>
  As long as the counter does not wrap, recording keeps \<open>totalCount\<close> equal to the sum of
  the counters.
\<close>

lemma recordValue_keeps_sum:
  assumes idx: "countsArrayIndex h v = Inr i" and i0: "0 \<le> i" and il: "i < countsArrayLength h"
    and len: "countsArrayLength h = int (length (counts h))"
    and room: "counts h ! nat i + 1 < 2 ^ counterBits h"
    and total: "totalCount h + 1 < 2 ^ 64"
    and inv: "sum_list (counts h) = totalCount h"
  shows "\<exists>h'. recordValue v h = Some (Done h') \<and> sum_list (counts h') = totalCount h'"
proof -
  define h1 where "h1 = h\<lparr>counts := (counts h)[nat i := counts h ! nat i + 1]\<rparr>"
  have ni: "nat i < length (counts h)" using i0 il len by simp
  have inc: "incrementCountAtIndex i h = Done h1"
    using i0 il len room by (simp add: incrementCountAtIndex_def in_array_def Let_def h1_def)
  have r: "recordValue v h = Some (Done (incrementTotalCount (updateMinAndMax v h1)))"
    using il by (simp add: recordValue_def recordSingleValue_def idx then_do_def inc)
  have c: "counts (incrementTotalCount (updateMinAndMax v h1)) = counts h1"
    by (simp add: incrementTotalCount_def updateMinAndMax_def updatedMaxValue_def
        updateMinNonZeroValue_def Let_def)
  have t: "totalCount (incrementTotalCount (updateMinAndMax v h1)) = totalCount h + 1"
    using total
    by (simp add: incrementTotalCount_def updateMinAndMax_def updatedMaxValue_def
        updateMinNonZeroValue_def Let_def add64_def h1_def)
  have s: "sum_list (counts h1) = sum_list (counts h) + 1"
    using ni by (simp add: h1_def sum_list_update)
  show ?thesis
    by (rule exI [of _ "incrementTotalCount (updateMinAndMax v h1)"]) (simp add: r c t s inv)
qed

text \<open>
  C7. The counter for the value \<open>2\<close> of an 8-bit histogram holds \<open>255\<close>; incrementing it, or
  adding \<open>1\<close> to it, completes without an error and stores \<open>0\<close>.
\<close>

theorem counter_overflow_wraps:
  "new_Histogram 8 1 2 0 = Some (Inr histogram8)
   \<and> recordCountAtValue 255 2 histogram8 = Some (Done full8)
   \<and> counts full8 ! 2 = 255
   \<and> incrementCountAtIndex 2 full8 = Done (full8\<lparr>counts := [0, 0, 0]\<rparr>)
   \<and> addToCountAtIndex 2 1 full8 = Done (full8\<lparr>counts := [0, 0, 0]\<rparr>)"
proof -
  have "counts full8 ! 2 = 255" by (simp add: full8_def)
  then show ?thesis
    by (intro conjI new_histogram8 record_255 increment_full8 add_full8)
qed

text \<open>
  C4. After \<open>recordCountAtValue(255, 2)\<close> and \<open>recordValue(2)\<close> on a fresh 8-bit histogram,
  both completed, \<open>totalCount\<close> is \<open>256\<close> and the counters sum to \<open>0\<close>.
\<close>

theorem totalCount_differs_from_sum:
  "new_Histogram 8 1 2 0 = Some (Inr histogram8)
   \<and> recordCountAtValue 255 2 histogram8 = Some (Done full8)
   \<and> recordValue 2 full8 = Some (Done wrapped8)
   \<and> totalCount wrapped8 = 256
   \<and> sum_list (counts wrapped8) = 0"
proof -
  have "totalCount wrapped8 = 256" and "sum_list (counts wrapped8) = 0"
    by (simp_all add: wrapped8_def)
  then show ?thesis
    by (intro conjI new_histogram8 record_255 record_wrap)
qed

section \<open>Percentiles after a counter has wrapped\<close>

lemma value_wrapped8_again:
  "valueFromIndex wrapped8_again 2 = 2"
  "lowestEquivalentValue wrapped8_again 2 = 2"
  by (simp_all add: value_defs index_defs wrapped8_again_def histogram8_def machine_defs Let_def)

lemma percentile_wrapped8_again:
  "getValueAtPercentile wrapped8_again 0 = Inr 2"
  "getValueAtPercentile wrapped8_again 100 = Inr 0"
proof -
  have len: "countsArrayLength wrapped8_again = int (length (counts wrapped8_again))"
    by (simp add: wrapped8_again_def histogram8_def)
  have small: "sum_list (counts wrapped8_again) < 2 ^ 64"
    by (simp add: wrapped8_again_def)
  have i: "2 < length (counts wrapped8_again)" by (simp add: wrapped8_again_def)
  have t0: "countAtPercentile wrapped8_again 0 = 1" by (rule countAtPercentile_nonpos) simp
  have tc: "totalCount wrapped8_again = 257" by (simp add: wrapped8_again_def)
  have q: "f64_div 100 100 = 1" by (simp add: f64_defs)
  have fp: "f64_mul 1 257 = 257" by (simp add: f64_defs)
  have df: "f64_sub 257 (ulp 257) = 4521191813414911 / 17592186044416"
    by (simp add: f64_defs)
  have t100: "countAtPercentile wrapped8_again 100 = 257"
    by (simp add: countAtPercentile_def Let_def tc to_f64_def q fp df f64_to_u64_def
        ceiling_rat_numeral)
  have s3: "sum_list (take (Suc 2) (counts wrapped8_again)) = 1"
    by (simp add: wrapped8_again_def)
  have s2: "sum_list (take 2 (counts wrapped8_again)) = 0"
    by (simp add: wrapped8_again_def)
  have reach: "countAtPercentile wrapped8_again 0 \<le> sum_list (take (Suc 2) (counts wrapped8_again))"
    unfolding t0 s3 by simp
  have "sum_list (take 2 (counts wrapped8_again)) < countAtPercentile wrapped8_again 0"
    unfolding t0 s2 by simp
  note first = first_reaching_index [OF this]
  from getValueAtPercentile_found [OF len small i reach first]
  show "getValueAtPercentile wrapped8_again 0 = Inr 2"
    by (simp add: value_wrapped8_again)
  have sall: "sum_list (counts wrapped8_again) = 1" by (simp add: wrapped8_again_def)
  have "\<forall>j<length (counts wrapped8_again).
      sum_list (take (Suc j) (counts wrapped8_again)) < countAtPercentile wrapped8_again 100"
  proof (intro allI impI)
    fix j
    have "sum_list (take (Suc j) (counts wrapped8_again)) \<le> sum_list (counts wrapped8_again)"
      by (rule sum_list_take_le)
    then show "sum_list (take (Suc j) (counts wrapped8_again)) < countAtPercentile wrapped8_again 100"
      unfolding t100 sall by simp
  qed
  then show "getValueAtPercentile wrapped8_again 100 = Inr 0"
    by (rule getValueAtPercentile_none [OF len small])
qed

text \<open>
  C5. On the 8-bit histogram whose counter has wrapped (\<open>totalCount = 257\<close>, one counter at
  \<open>1\<close>), the percentile \<open>0\<close> answers \<open>2\<close> and the percentile \<open>100\<close> answers \<open>0\<close>.
\<close>

theorem percentile_not_monotone_after_wrap:
  "recordValue 2 full8 = Some (Done wrapped8)
   \<and> recordValue 2 wrapped8 = Some (Done wrapped8_again)
   \<and> getValueAtPercentile wrapped8_again 0 = Inr 2
   \<and> getValueAtPercentile wrapped8_again 100 = Inr 0"
  by (intro conjI record_wrap record_wrap_again percentile_wrapped8_again)

section \<open>Minimum and maximum\<close>

lemma updateMinAndMax_effect:
  "maxValue (updateMinAndMax v h) =
     (if v > maxValue h then add64 v (unitMagnitudeMask h) else maxValue h)"
  "minNonZeroValue (updateMinAndMax v h) =
     (if v < minNonZeroValue h \<and> v > unitMagnitudeMask h
      then v AND not64 (unitMagnitudeMask h) else minNonZeroValue h)"
  by (auto simp: updateMinAndMax_def updatedMaxValue_def updateMinNonZeroValue_def Let_def)

lemma establishSize_keeps:
  assumes "establishSize n h = Some (Done h1)"
  shows "maxValue h1 = maxValue h \<and> minNonZeroValue h1 = minNonZeroValue h
    \<and> unitMagnitudeMask h1 = unitMagnitudeMask h"
  using assms
  by (auto simp: establishSize_def Let_def split: option.splits sum.splits)

lemma resize_keeps:
  assumes "resize n h = Some (Done h1)"
  shows "maxValue h1 = maxValue h \<and> minNonZeroValue h1 = minNonZeroValue h
    \<and> unitMagnitudeMask h1 = unitMagnitudeMask h"
proof -
  from assms obtain h0 where e: "establishSize n h = Some (Done h0)"
    and r: "h1 = h0\<lparr>counts := counts h0 @ replicate (nat (countsArrayLength h0) - length (counts h0)) 0\<rparr>"
    by (auto simp: resize_def then_do_def Let_def split: option.splits step.splits if_splits)
  from establishSize_keeps [OF e] r show ?thesis by simp
qed

lemma addToCountAtIndex_keeps:
  assumes "addToCountAtIndex i c h = Done h1"
  shows "maxValue h1 = maxValue h \<and> minNonZeroValue h1 = minNonZeroValue h
    \<and> unitMagnitudeMask h1 = unitMagnitudeMask h"
  using assms by (auto simp: addToCountAtIndex_def Let_def split: if_splits)

lemma incrementCountAtIndex_keeps:
  assumes "incrementCountAtIndex i h = Done h1"
  shows "maxValue h1 = maxValue h \<and> minNonZeroValue h1 = minNonZeroValue h
    \<and> unitMagnitudeMask h1 = unitMagnitudeMask h"
  using assms by (auto simp: incrementCountAtIndex_def Let_def split: if_splits)

lemma handleRecordException_keeps:
  assumes "handleRecordException c v h = Some (Done h1)"
  shows "maxValue h1 = maxValue h \<and> minNonZeroValue h1 = minNonZeroValue h
    \<and> unitMagnitudeMask h1 = unitMagnitudeMask h"
proof -
  from assms obtain ha i hb where r: "resize v h = Some (Done ha)"
    and a: "addToCountAtIndex i c ha = Done hb"
    and f: "h1 = hb\<lparr>highestTrackableValue :=
        highestEquivalentValue hb (valueFromIndex hb (sub32 (countsArrayLength hb) 1))\<rparr>"
    by (auto simp: handleRecordException_def then_do_def
        split: option.splits step.splits if_splits sum.splits)
  from resize_keeps [OF r] addToCountAtIndex_keeps [OF a] f show ?thesis by simp
qed

lemma recordSingleValue_Done:
  assumes "recordSingleValue v h = Some (Done h')"
  shows "\<exists>h1. h' = incrementTotalCount (updateMinAndMax v h1)
    \<and> maxValue h1 = maxValue h \<and> minNonZeroValue h1 = minNonZeroValue h
    \<and> unitMagnitudeMask h1 = unitMagnitudeMask h"
proof -
  from assms obtain i h1 where
    s: "(if i \<ge> countsArrayLength h then handleRecordException 1 v h
         else Some (incrementCountAtIndex i h)) = Some (Done h1)"
    and f: "h' = incrementTotalCount (updateMinAndMax v h1)"
    by (auto simp: recordSingleValue_def then_do_def split: option.splits step.splits sum.splits)
  have "maxValue h1 = maxValue h \<and> minNonZeroValue h1 = minNonZeroValue h
    \<and> unitMagnitudeMask h1 = unitMagnitudeMask h"
  proof (cases "i \<ge> countsArrayLength h")
    case True
    with s have "handleRecordException 1 v h = Some (Done h1)" by simp
    then show ?thesis by (rule handleRecordException_keeps)
  next
    case False
    with s have "incrementCountAtIndex i h = Done h1" by simp
    then show ?thesis by (rule incrementCountAtIndex_keeps)
  qed
  with f show ?thesis by blast
qed

text \<open>
  C6, as the code has it. When \<open>recordValue v\<close> completes: if \<open>v > maxValue\<close> then \<open>maxValue\<close>
  becomes \<open>v + unitMagnitudeMask\<close>; and \<open>minNonZeroValue\<close> becomes \<open>v & ~unitMagnitudeMask\<close>
  exactly when \<open>v < minNonZeroValue\<close> and \<open>v > unitMagnitudeMask\<close>. A non-zero value at or below
  \<open>unitMagnitudeMask\<close> leaves \<open>minNonZeroValue\<close> as it was.
\<close>

theorem recordValue_min_max:
  assumes "recordValue v h = Some (Done h')"
  shows "maxValue h' = (if v > maxValue h then add64 v (unitMagnitudeMask h) else maxValue h)
    \<and> minNonZeroValue h' =
         (if v < minNonZeroValue h \<and> v > unitMagnitudeMask h
          then v AND not64 (unitMagnitudeMask h) else minNonZeroValue h)"
proof -
  from assms have "recordSingleValue v h = Some (Done h')" by (simp add: recordValue_def)
  from recordSingleValue_Done [OF this] obtain h1 where
    f: "h' = incrementTotalCount (updateMinAndMax v h1)"
    and k: "maxValue h1 = maxValue h" "minNonZeroValue h1 = minNonZeroValue h"
      "unitMagnitudeMask h1 = unitMagnitudeMask h"
    by blast
  have "maxValue h' = maxValue (updateMinAndMax v h1)"
    and "minNonZeroValue h' = minNonZeroValue (updateMinAndMax v h1)"
    by (simp_all add: f incrementTotalCount_def)
  then show ?thesis by (simp only: updateMinAndMax_effect k)
qed

theorem recordValue_min_max_witness:
  "recordValue 2 histogram_unit4 = Some (Done recorded_2)
   \<and> maxValue recorded_2 = add64 2 (unitMagnitudeMask histogram_unit4)
   \<and> minNonZeroValue recorded_2 = minNonZeroValue histogram_unit4
   \<and> recordValue 100 histogram64 = Some (Done recorded_100)
   \<and> maxValue recorded_100 = add64 100 (unitMagnitudeMask histogram64)
   \<and> minNonZeroValue recorded_100 = 100 AND not64 (unitMagnitudeMask histogram64)"
proof -
  have a: "(2::nat) > maxValue histogram_unit4"
    "\<not> ((2::nat) < minNonZeroValue histogram_unit4 \<and> 2 > unitMagnitudeMask histogram_unit4)"
    by (simp_all add: histogram_unit4_def)
  have b: "(100::nat) > maxValue histogram64"
    "(100::nat) < minNonZeroValue histogram64 \<and> 100 > unitMagnitudeMask histogram64"
    by (simp_all add: histogram64_def)
  from recordValue_min_max [OF recordValue_2_unit4] a
  have 1: "maxValue recorded_2 = add64 2 (unitMagnitudeMask histogram_unit4)"
    "minNonZeroValue recorded_2 = minNonZeroValue histogram_unit4"
    by simp_all
  from recordValue_min_max [OF recordValue_100] b
  have 2: "maxValue recorded_100 = add64 100 (unitMagnitudeMask histogram64)"
    "minNonZeroValue recorded_100 = 100 AND not64 (unitMagnitudeMask histogram64)"
    by simp_all
  show ?thesis
    by (intro conjI recordValue_2_unit4 recordValue_100 1 2)
qed

text \<open>
  The claim as stated fails: recording the non-zero value \<open>2\<close>, which is below
  \<open>minNonZeroValue\<close>, on \<open>new Histogram64(4, 8, 0)\<close> leaves \<open>minNonZeroValue\<close> at the initial
  \<open>U64.MAX_VALUE\<close>, not at \<open>2 & ~unitMagnitudeMask\<close>.
\<close>

theorem min_stays_sentinel_counterexample:
  "new_Histogram 64 4 8 0 = Some (Inr histogram_unit4)
   \<and> recordValue 2 histogram_unit4 = Some (Done recorded_2)
   \<and> (2::nat) \<noteq> 0
   \<and> 2 < minNonZeroValue histogram_unit4
   \<and> minNonZeroValue recorded_2 = U64_MAX_VALUE
   \<and> minNonZeroValue recorded_2 \<noteq> 2 AND not64 (unitMagnitudeMask histogram_unit4)"
proof -
  have "(2::nat) \<noteq> 0" by simp
  moreover have "2 < minNonZeroValue histogram_unit4" by (simp add: histogram_unit4_def)
  moreover have "minNonZeroValue recorded_2 = U64_MAX_VALUE"
    by (simp add: recorded_2_def histogram_unit4_def U64_MAX_VALUE_def)
  moreover have "minNonZeroValue recorded_2 \<noteq> 2 AND not64 (unitMagnitudeMask histogram_unit4)"
    by (simp add: recorded_2_def histogram_unit4_def not64_def)
  ultimately show ?thesis
    by (intro conjI new_histogram_unit4 recordValue_2_unit4)
qed

section \<open>Adding another histogram\<close>

lemma index_unit2_4: "countsArrayIndex histogram_unit2 4 = Inr 2"
  by (simp add: index_defs histogram_unit2_def machine_defs Let_def)

lemma recordValue_4_unit2: "recordValue 4 histogram_unit2 = Some (Done recorded_4)"
  apply (simp add: recordValue_def recordSingleValue_def index_unit2_4 then_do_def)
  apply (simp add: counter_defs histogram_unit2_def recorded_4_def machine_defs Let_def)
  done

lemma highest_recordable_unit2:
  "highestEquivalentValue histogram_unit2
     (valueFromIndex histogram_unit2 (sub32 (countsArrayLength histogram_unit2) 1)) = 7"
  by (simp add: value_defs index_defs histogram_unit2_def machine_defs Let_def)

lemma addCountsLoop_unit2:
  "addCountsLoop recorded_4 0 0 histogram_unit2 = (Inr 1, histogram_unit2\<lparr>counts := [0, 0, 1]\<rparr>)"
  apply (subst addCountsLoop.simps)
  apply (simp add: recorded_4_def histogram_unit2_def getCountAtIndex_def in_array_def)
  apply (subst addCountsLoop.simps)
  apply (simp add: getCountAtIndex_def in_array_def)
  apply (subst addCountsLoop.simps)
  apply (simp add: getCountAtIndex_def in_array_def addToCountAtIndex_def add64_def)
  apply (subst addCountsLoop.simps)
  apply (simp add: add64_def)
  done

lemma add_recorded_4: "add recorded_4 histogram_unit2 = Some (Done merged_4)"
  apply (simp add: add_def Let_def highest_recordable_unit2 then_do_def)
  apply (simp add: addCountsLoop_unit2 Let_def)
  apply (simp add: recorded_4_def histogram_unit2_def
      merged_4_def updatedMaxValue_def updateMinNonZeroValue_def machine_defs)
  done

text \<open>
  C9. \<open>add\<close> on two histograms of the same layout (\<open>lowestDiscernibleValue = 2\<close>, so
  \<open>unitMagnitudeMask = 1\<close>): the other histogram holds the value \<open>4\<close> and has \<open>maxValue = 5\<close>,
  this one is empty with \<open>maxValue = 0\<close>; after \<open>add\<close> the counters are added and \<open>maxValue\<close>
  is \<open>6\<close>, not the maximum \<open>5\<close> of the two.
\<close>

theorem add_max_value_off_by_mask:
  "new_Histogram 64 2 4 0 = Some (Inr histogram_unit2)
   \<and> recordValue 4 histogram_unit2 = Some (Done recorded_4)
   \<and> add recorded_4 histogram_unit2 = Some (Done merged_4)
   \<and> max (maxValue histogram_unit2) (maxValue recorded_4) = 5
   \<and> maxValue merged_4 = 6"
proof -
  have "max (maxValue histogram_unit2) (maxValue recorded_4) = 5"
    by (simp add: histogram_unit2_def recorded_4_def)
  moreover have "maxValue merged_4 = 6" by (simp add: merged_4_def)
  ultimately show ?thesis
    by (intro conjI new_histogram_unit2 recordValue_4_unit2 add_recorded_4)
qed

section \<open>Expected intervals\<close>

lemma index_64_5:
  "countsArrayIndex (histogram64\<lparr>maxValue := a, minNonZeroValue := b, counts := c, totalCount := d\<rparr>) 5
     = Inr 3"
  by (simp add: index_defs histogram64_def machine_defs Let_def)

lemma index_64_5_fresh: "countsArrayIndex histogram64 5 = Inr 3"
  by (simp add: index_defs histogram64_def machine_defs Let_def)

lemma recordSingleValue_5: "recordSingleValue 5 histogram64 = Some (Done recorded_5)"
  apply (simp add: recordSingleValue_def index_64_5_fresh then_do_def)
  apply (simp add: counter_defs histogram64_def recorded_5_def machine_defs Let_def)
  done

lemma wrapped_missing_value: "sub64 5 10 = 18446744073709551611"
  by (simp add: sub64_def)

lemma to_f64_wrapped: "to_f64 18446744073709551611 = 18446744073709551616"
  by (simp add: to_f64_def Let_def floor_log2_eval)

lemma index_wrapped: "countsArrayIndex recorded_5 18446744073709551611 = Inl AssertionFailed"
proof -
  have bi: "getBucketIndex recorded_5 18446744073709551611 = 64"
    by (simp add: getBucketIndex_def floor_log2_f64_def log2_rounds_up_def to_f64_wrapped
        floor_log2_eval recorded_5_def histogram64_def sat_i32_def)
  have si: "getSubBucketIndex recorded_5 18446744073709551611 64 = - 5"
    by (simp add: getSubBucketIndex_def recorded_5_def histogram64_def machine_defs)
  show ?thesis
    by (simp add: countsArrayIndex_def bi si)
      (simp add: computeCountsArrayIndex_def recorded_5_def histogram64_def)
qed

lemma single_with_interval:
  "recordSingleValueWithExpectedInterval 5 10 histogram64 = Some (Thrown AssertionFailed recorded_5)"
  apply (simp add: recordSingleValueWithExpectedInterval_def recordSingleValue_5 then_do_def
      wrapped_missing_value)
  apply (subst singleValueLoop.simps)
  apply (simp add: recordSingleValue_def index_wrapped)
  done

lemma recordCountAtValue_5_shape:
  assumes "length c = 11"
  shows "\<exists>a' b' c' d'. recordCountAtValue 2 5
      (histogram64\<lparr>maxValue := a, minNonZeroValue := b, counts := c, totalCount := d\<rparr>) =
        Some (Done (histogram64\<lparr>maxValue := a', minNonZeroValue := b', counts := c',
          totalCount := d'\<rparr>))
      \<and> length c' = 11"
proof -
  have cal: "countsArrayLength (histogram64\<lparr>maxValue := a, minNonZeroValue := b, counts := c,
      totalCount := d\<rparr>) = 11"
    by (simp add: histogram64_def)
  have "\<exists>a' b' d'. recordCountAtValue 2 5
      (histogram64\<lparr>maxValue := a, minNonZeroValue := b, counts := c, totalCount := d\<rparr>) =
        Some (Done (histogram64\<lparr>maxValue := a', minNonZeroValue := b',
          counts := c[3 := add64 (c ! 3) 2 mod 2 ^ 64], totalCount := d'\<rparr>))"
    apply (simp add: recordCountAtValue_def index_64_5 then_do_def cal)
    apply (simp add: addToCountAtIndex_def in_array_def assms Let_def)
    apply (simp add: updateMinAndMax_def updatedMaxValue_def updateMinNonZeroValue_def Let_def
        histogram64_def)
    done
  then show ?thesis using assms by (metis length_list_update)
qed

lemma countLoop_never_returns_aux:
  assumes "countLoop k e m h = Some y"
  shows "\<not> (k = 2 \<and> e = 0 \<and> m = 5 \<and>
    (\<exists>a b c d. h = histogram64\<lparr>maxValue := a, minNonZeroValue := b, counts := c,
       totalCount := d\<rparr> \<and> length c = 11))"
  using assms
proof (rule countLoop.raw_induct [rotated 1,
    where P = "\<lambda>k e m h y. \<not> (k = 2 \<and> e = 0 \<and> m = 5 \<and>
      (\<exists>a b c d. h = histogram64\<lparr>maxValue := a, minNonZeroValue := b, counts := c,
         totalCount := d\<rparr> \<and> length c = 11))"])
  fix loop :: "nat \<Rightarrow> nat \<Rightarrow> nat \<Rightarrow> Histogram \<Rightarrow> step option"
    and k e m :: nat and h :: Histogram and y :: step
  assume IH: "\<And>k e m h y. loop k e m h = Some y \<Longrightarrow>
      \<not> (k = 2 \<and> e = 0 \<and> m = 5 \<and>
        (\<exists>a b c d. h = histogram64\<lparr>maxValue := a, minNonZeroValue := b, counts := c,
           totalCount := d\<rparr> \<and> length c = 11))"
    and body: "(if m \<ge> e then
        (case recordCountAtValue k m h of
           None \<Rightarrow> None
         | Some (Thrown e h1) \<Rightarrow> Some (Thrown e h1)
         | Some (Done h1) \<Rightarrow> loop k e (sub64 m e) h1)
      else Some (Done h)) = Some y"
  show "\<not> (k = 2 \<and> e = 0 \<and> m = 5 \<and>
      (\<exists>a b c d. h = histogram64\<lparr>maxValue := a, minNonZeroValue := b, counts := c,
         totalCount := d\<rparr> \<and> length c = 11))"
  proof
    assume "k = 2 \<and> e = 0 \<and> m = 5 \<and>
      (\<exists>a b c d. h = histogram64\<lparr>maxValue := a, minNonZeroValue := b, counts := c,
         totalCount := d\<rparr> \<and> length c = 11)"
    then obtain a b c d where k: "k = 2" and e: "e = 0" and m: "m = 5"
      and h: "h = histogram64\<lparr>maxValue := a, minNonZeroValue := b, counts := c, totalCount := d\<rparr>"
      and c: "length c = 11"
      by blast
    from recordCountAtValue_5_shape [OF c, where a = a and b = b and d = d]
    obtain a' b' c' d' where
      r: "recordCountAtValue 2 5 h = Some (Done (histogram64\<lparr>maxValue := a',
            minNonZeroValue := b', counts := c', totalCount := d'\<rparr>))"
      and c': "length c' = 11"
      unfolding h by blast
    have s: "sub64 5 0 = 5" by (simp add: sub64_def)
    from body have "loop 2 0 5 (histogram64\<lparr>maxValue := a', minNonZeroValue := b',
        counts := c', totalCount := d'\<rparr>) = Some y"
      by (simp add: k e m r s)
    from IH [OF this] c' show False by blast
  qed
qed

lemma count_with_zero_interval:
  "recordValueWithCountAndExpectedInterval 5 2 0 histogram64 = None"
proof -
  have h: "histogram64 = histogram64\<lparr>maxValue := 0, minNonZeroValue := 18446744073709551615,
      counts := [0, 0, 0, 0, 0, 0, 0, 0, 0, 0, 0], totalCount := 0\<rparr>"
    by (simp add: histogram64_def)
  have "length [0::nat, 0, 0, 0, 0, 0, 0, 0, 0, 0, 0] = 11" by simp
  from recordCountAtValue_5_shape [OF this, where a = 0 and b = 18446744073709551615 and d = 0]
  obtain a' b' c' d' where
    r: "recordCountAtValue 2 5 histogram64 = Some (Done (histogram64\<lparr>maxValue := a',
          minNonZeroValue := b', counts := c', totalCount := d'\<rparr>))"
    and c': "length c' = 11"
    unfolding h [symmetric] by blast
  have s: "sub64 5 0 = 5" by (simp add: sub64_def)
  have "countLoop 2 0 5 (histogram64\<lparr>maxValue := a', minNonZeroValue := b', counts := c',
      totalCount := d'\<rparr>) = None"
  proof (cases "countLoop 2 0 5 (histogram64\<lparr>maxValue := a', minNonZeroValue := b',
      counts := c', totalCount := d'\<rparr>)")
    case None
    then show ?thesis .
  next
    case (Some y)
    from countLoop_never_returns_aux [OF this] c' show ?thesis by blast
  qed
  then show ?thesis
    by (simp add: recordValueWithCountAndExpectedInterval_def r then_do_def s)
qed

subsection \<open>The scenario of the spec\<close>

text \<open>
  On \<open>new Histogram64(1, 2, 3)\<close>, \<open>recordSingleValueWithExpectedInterval(1000, 100)\<close> records
  \<open>1000, 900, \<dots>, 100\<close> once each: ten samples.
\<close>

lemma bucketsLoop_2048_2: "bucketsLoop 2048 2 1 = Some 1"
  by (simp add: bucketsLoop.simps machine_defs)

lemma new_histogram_default: "new_Histogram 64 1 2 3 = Some (Inr histogram_default)"
  apply (simp add: new_Histogram_def init_def Let_def)
  apply (simp add: log_defs machine_defs)
  apply (simp add: sizing_defs machine_defs bucketsLoop_2048_2 histogram_default_def)
  done

lemma index_default_low:
  assumes "0 < v" "v < 1024"
  shows "countsArrayIndex (histogram_default\<lparr>maxValue := a, minNonZeroValue := b, counts := c,
      totalCount := d\<rparr>) v = Inr (int v)"
proof -
  have fl: "floor_log2_f64 v = Some (int (floor_log2 v))"
    using floor_log2_f64_exact [of v 9 0] assms by simp
  have "floor_log2 v < 10" using assms by (intro floor_log2_less) simp_all
  then have bi: "getBucketIndex (histogram_default\<lparr>maxValue := a, minNonZeroValue := b,
      counts := c, totalCount := d\<rparr>) v = 0"
    by (simp add: getBucketIndex_def fl histogram_default_def sat_i32_def)
  have "int v < 2 ^ 31" using assms by simp
  then have "to_i32 (int v) = int v" by (intro to_i32_small) simp_all
  then have si: "getSubBucketIndex (histogram_default\<lparr>maxValue := a, minNonZeroValue := b,
      counts := c, totalCount := d\<rparr>) v 0 = int v"
    by (simp add: getSubBucketIndex_def histogram_default_def shr64_def)
  show ?thesis
    using assms
    by (simp add: countsArrayIndex_def bi si Let_def)
      (simp add: computeCountsArrayIndex_def histogram_default_def machine_defs)
qed

lemma record_default_low:
  assumes "1 < v" "v < 1024" "length c = 2048" "c ! v = 0" "d < 1000"
    and "v \<le> a" "v < b"
  shows "recordSingleValue v (histogram_default\<lparr>maxValue := a, minNonZeroValue := b,
      counts := c, totalCount := d\<rparr>) =
    Some (Done (histogram_default\<lparr>maxValue := a, minNonZeroValue := v,
      counts := c[v := 1], totalCount := d + 1\<rparr>))"
proof -
  have pos: "0 < v" using assms(1) by simp
  have nz: "v AND not64 0 = v"
  proof -
    have "v < 2 ^ 64" using assms(2) by simp
    then have t: "take_bit 64 v = v" by (simp add: take_bit_nat_eq_self_iff)
    have m: "not64 0 = mask 64" by (simp add: not64_def mask_eq_exp_minus_1)
    show ?thesis unfolding m using t by (simp only: take_bit_eq_mask [symmetric])
  qed
  show ?thesis
    apply (simp add: recordSingleValue_def index_default_low [OF pos assms(2)] then_do_def)
    apply (simp add: histogram_default_def incrementCountAtIndex_def in_array_def assms(2,3,4) Let_def)
    using assms nz
    apply (simp add: updateMinAndMax_def updatedMaxValue_def updateMinNonZeroValue_def
        incrementTotalCount_def add64_def Let_def)
    done
qed

lemma record_default_first:
  "recordSingleValue 1000 histogram_default =
    Some (Done (histogram_default\<lparr>maxValue := 1000, minNonZeroValue := 1000,
      counts := (replicate 2048 0)[1000 := 1], totalCount := 1\<rparr>))"
proof -
  have h: "histogram_default = histogram_default\<lparr>maxValue := 0,
      minNonZeroValue := 18446744073709551615, counts := replicate 2048 0, totalCount := 0\<rparr>"
    by (simp add: histogram_default_def)
  have i: "countsArrayIndex histogram_default 1000 = Inr 1000"
    by (subst h) (simp add: index_default_low)
  show ?thesis
    apply (simp add: recordSingleValue_def i then_do_def)
    apply (simp add: histogram_default_def incrementCountAtIndex_def in_array_def Let_def)
    apply (simp add: updateMinAndMax_def updatedMaxValue_def updateMinNonZeroValue_def
        incrementTotalCount_def machine_defs Let_def)
    done
qed

lemma expected_interval_scenario:
  "recordSingleValueWithExpectedInterval 1000 100 histogram_default = Some (Done corrected_1000)"
  apply (simp add: recordSingleValueWithExpectedInterval_def record_default_first then_do_def
      sub64_def)
  apply (subst singleValueLoop.simps, simp add: record_default_low sub64_def)+
  apply (simp add: corrected_1000_def)
  done

subsection \<open>The two guards\<close>

text \<open>
  C8. With \<open>v = 5\<close> below the interval \<open>10\<close>, \<open>recordSingleValueWithExpectedInterval\<close> records
  \<open>5\<close> and then goes on to the wrapped missing value \<open>2 ^ 64 - 5\<close>, where it throws; and
  \<open>recordValueWithCountAndExpectedInterval\<close> with the interval \<open>0\<close> does not return.
\<close>

theorem expected_interval_guards_missing:
  "new_Histogram 64 1 1000 0 = Some (Inr histogram64)
   \<and> recordSingleValueWithExpectedInterval 5 10 histogram64 =
        Some (Thrown AssertionFailed recorded_5)
   \<and> recordValueWithCountAndExpectedInterval 5 2 0 histogram64 = None"
  by (intro conjI new_histogram64 single_with_interval count_with_zero_interval)

section \<open>Values that round up to a power of two\<close>

text \<open>
  On \<open>new Histogram64(1, 2 ^ 60, 3)\<close> the logarithm of \<open>2 ^ 49 - 1\<close> rounds to \<open>49\<close>, which
  makes the bucket index \<open>39\<close> where bucket \<open>38\<close> holds the value: \<open>countsArrayIndex\<close> fails
  its assertion there, as it does on \<open>2 ^ 53 - 1\<close>.
\<close>

lemma bucket_below_2_49: "getBucketIndex histogram_wide 562949953421311 = 39"
  by (simp add: getBucketIndex_def floor_log2_f64_below_2_49 histogram_wide_def sat_i32_def)

lemma index_below_2_49:
  "countsArrayIndex histogram_wide 562949953421311 = Inl AssertionFailed"
proof -
  have si: "getSubBucketIndex histogram_wide 562949953421311 39 = 1023"
    by (simp add: getSubBucketIndex_def histogram_wide_def machine_defs)
  show ?thesis
    by (simp add: countsArrayIndex_def bucket_below_2_49 si)
      (simp add: computeCountsArrayIndex_def histogram_wide_def)
qed

lemma index_below_2_53:
  "countsArrayIndex histogram_wide 9007199254740991 = Inl AssertionFailed"
proof -
  have bi: "getBucketIndex histogram_wide 9007199254740991 = 43"
    by (simp add: getBucketIndex_def log_defs histogram_wide_def sat_i32_def)
  have si: "getSubBucketIndex histogram_wide 9007199254740991 43 = 1023"
    by (simp add: getSubBucketIndex_def histogram_wide_def machine_defs)
  show ?thesis
    by (simp add: countsArrayIndex_def bi si)
      (simp add: computeCountsArrayIndex_def histogram_wide_def)
qed

text \<open>
  Above \<open>2 ^ 53\<close> the conversion to a double rounds as well.
\<close>

lemma to_f64_below_2_54: "to_f64 18014398509481983 = 18014398509481984"
  by (simp add: to_f64_def Let_def floor_log2_eval)

lemma bucket_of_rounded:
  "getBucketIndex histogram_wide 18014398509481983 = 44"
  by (simp add: getBucketIndex_def floor_log2_f64_def log2_rounds_up_def to_f64_below_2_54
      floor_log2_eval histogram_wide_def sat_i32_def)

lemma sub_bucket_of_rounded:
  "getSubBucketIndex histogram_wide 18014398509481983 44 = 1023"
  by (simp add: getSubBucketIndex_def histogram_wide_def machine_defs)

lemma index_of_rounded:
  "countsArrayIndex histogram_wide 18014398509481983 = Inl AssertionFailed"
  by (simp add: countsArrayIndex_def bucket_of_rounded sub_bucket_of_rounded)
    (simp add: computeCountsArrayIndex_def histogram_wide_def)

lemma lowest_of_rounded:
  "lowestEquivalentValue histogram_wide 18014398509481983 = 17996806323437568"
  by (simp add: lowestEquivalentValue_def bucket_of_rounded sub_bucket_of_rounded)
    (simp add: valueFromIndexes_def histogram_wide_def machine_defs)

lemma highest_of_rounded:
  "highestEquivalentValue histogram_wide 18014398509481983 = 18014398509481983"
  by (simp add: highestEquivalentValue_def nextNonEquivalentValue_def lowest_of_rounded
      sizeOfEquivalentValueRange_def bucket_of_rounded)
    (simp add: histogram_wide_def machine_defs)

lemma index_of_lowest:
  "countsArrayIndex histogram_wide 17996806323437568 = Inr 46078"
proof -
  have bi: "getBucketIndex histogram_wide 17996806323437568 = 43"
    by (simp add: getBucketIndex_def floor_log2_f64_def log2_rounds_up_def to_f64_def Let_def
        floor_log2_eval histogram_wide_def sat_i32_def)
  have si: "getSubBucketIndex histogram_wide 17996806323437568 43 = 2046"
    by (simp add: getSubBucketIndex_def histogram_wide_def machine_defs)
  show ?thesis
    by (simp add: countsArrayIndex_def bi si)
      (simp add: computeCountsArrayIndex_def histogram_wide_def machine_defs)
qed

text \<open>
  C2. On \<open>new Histogram64(1, 2 ^ 60, 3)\<close> the value \<open>v = 2 ^ 54 - 1\<close> is within the trackable
  range. Its conversion to double rounds up to \<open>2 ^ 54\<close>, so \<open>getBucketIndex\<close> answers \<open>44\<close>
  where bucket \<open>43\<close> holds the value, and \<open>countsArrayIndex v\<close> fails its own assertion. The
  range \<open>lowestEquivalentValue v .. highestEquivalentValue v\<close> starts at \<open>2 ^ 54 - 2 ^ 44\<close>,
  whose index is \<open>46078\<close>.
\<close>

theorem equivalent_range_broken_by_rounding:
  "new_Histogram 64 1 1152921504606846976 3 = Some (Inr histogram_wide)
   \<and> (18014398509481983::nat) \<le> highestTrackableValue histogram_wide
   \<and> to_f64 18014398509481983 = 18014398509481984
   \<and> lowestEquivalentValue histogram_wide 18014398509481983 = 17996806323437568
   \<and> highestEquivalentValue histogram_wide 18014398509481983 = 18014398509481983
   \<and> countsArrayIndex histogram_wide 17996806323437568 = Inr 46078
   \<and> countsArrayIndex histogram_wide 18014398509481983 = Inl AssertionFailed"
proof -
  have "(18014398509481983::nat) \<le> highestTrackableValue histogram_wide"
    by (simp add: histogram_wide_def)
  then show ?thesis
    by (intro conjI new_histogram_wide to_f64_below_2_54 lowest_of_rounded highest_of_rounded
        index_of_lowest index_of_rounded)
qed

end
